theory Spec2Isabelle
  imports Main
begin

section \<open>Data model\<close>

text \<open>
  Errors that can be raised while the scheduler runs: the two built-in JavaScript errors the
  code can provoke (calling a property of \<open>null\<close> or \<open>undefined\<close>; giving an array a
  negative length) and the errors thrown by the scheduled tasks themselves.
\<close>

datatype err = TypeError | RangeError | Thrown nat

text \<open>
  A task is a callable. What a task can do to the scheduler while it runs is to schedule
  further tasks and finally to return or to throw, so a task is described by a label, the
  call its scheduling goes through (\<open>asap\<close> or \<open>rawAsap\<close>), the tasks it schedules while it
  runs (in order), and the error it throws on exit, if any.
\<close>

datatype kind = ViaAsap | ViaRawAsap

datatype task = Task (label: nat) (via: kind) (spawns: "task list") (throws: "err option")

text \<open>
  The queue of \<open>Raw\<close> holds objects with a \<open>call\<close> method: either a task itself (what a
  direct caller of \<open>rawAsap\<close> hands in) or one of the recyclable task objects made by
  \<open>getRawTask\<close>. The latter are mutable objects shared between the queue and the free list,
  so they are held by reference (an address into the \<open>holders\<close> store).
\<close>

datatype entry = Plain task | Holder nat

text \<open>
  A request function is the closure returned by \<open>makeRequestCallFromMutationObserver\<close> or
  by \<open>makeRequestCallFromTimer\<close>: it is determined by the host primitive it drives and by the
  callback the host is asked to invoke.
\<close>

datatype primitive = Observation | Timer

datatype callback = Flush | ThrowFirstError

datatype request_fn = RequestCall primitive callback

text \<open>
  One object carries the fields of \<open>Raw\<close> and, since \<open>Asap extends Raw\<close>, those of \<open>Asap\<close>.
  \<open>holders\<close> is the store of the task objects (their \<open>task\<close> field, \<open>None\<close> for \<open>null\<close>),
  \<open>next_holder\<close> the next unused address, \<open>onerror\<close> the optional test hook (a hook maps
  the error it is given to the error it throws itself, if any). The index is only ever set
  to 0 or increased by 1, so it is a natural number.
  The remaining fields record what the environment observes: \<open>requested\<close> the request
  functions invoked so far, \<open>executed\<close> the tasks whose bodies have run, \<open>observed\<close> the errors
  handed to the hook, and \<open>scheduled\<close> the tasks handed to the queue. No operation reads them.
\<close>

record state =
  queue :: "entry list"
  flushing :: bool
  index :: nat
  capacity :: nat
  requestFlush :: request_fn
  freeTasks :: "nat list"
  pendingErrors :: "err list"
  requestErrorThrow :: "request_fn option"
  onerror :: "(err \<Rightarrow> err option) option"
  holders :: "nat \<Rightarrow> task option"
  next_holder :: nat
  requested :: "request_fn list"
  executed :: "task list"
  observed :: "err list"
  scheduled :: "task list"

section \<open>Raw\<close>

definition makeRequestCallFromMutationObserver :: "callback \<Rightarrow> request_fn" where
  "makeRequestCallFromMutationObserver cb = RequestCall Observation cb"

definition makeRequestCallFromTimer :: "callback \<Rightarrow> request_fn" where
  "makeRequestCallFromTimer cb = RequestCall Timer cb"

text \<open>Invoking a request function asks the host for one future call of its callback.\<close>

definition call_request :: "request_fn \<Rightarrow> state \<Rightarrow> state" where
  "call_request rq s = s\<lparr>requested := requested s @ [rq]\<rparr>"

text \<open>
  The constructor of \<open>Raw\<close>; the argument says whether the host offers a mutation observer
  (\<open>typeof this.BrowserMutationObserver === "function"\<close>). The fields of \<open>Asap\<close> do not exist
  yet.
\<close>

definition Raw_constructor :: "bool \<Rightarrow> state" where
  "Raw_constructor has_observer =
     \<lparr>queue = [], flushing = False, index = 0, capacity = 1024,
      requestFlush = (if has_observer then makeRequestCallFromMutationObserver Flush
                      else makeRequestCallFromTimer Flush),
      freeTasks = [], pendingErrors = [], requestErrorThrow = None, onerror = None,
      holders = (\<lambda>_. None), next_holder = 0,
      requested = [], executed = [], observed = [], scheduled = []\<rparr>"

definition entry_task :: "state \<Rightarrow> entry \<Rightarrow> task option" where
  "entry_task s e = (case e of Plain t \<Rightarrow> Some t | Holder h \<Rightarrow> holders s h)"

text \<open>
  \<open>rawAsap\<close>: when the queue is empty, call \<open>requestFlush\<close> and set the flag; then append
  the argument to the queue. (The update of \<open>scheduled\<close> is the record of the task handed in;
  it is not part of the program.)
\<close>

definition rawAsap :: "entry \<Rightarrow> state \<Rightarrow> state" where
  "rawAsap e s =
     (let s1 = (if queue s = [] then (call_request (requestFlush s) s)\<lparr>flushing := True\<rparr> else s)
      in s1\<lparr>queue := queue s1 @ [e],
            scheduled := scheduled s1 @ (case entry_task s1 e of None \<Rightarrow> [] | Some t \<Rightarrow> [t])\<rparr>)"

section \<open>Asap\<close>

text \<open>
  The constructor of \<open>Asap\<close> runs the constructor of \<open>Raw\<close>, sets \<open>freeTasks\<close> and
  \<open>pendingErrors\<close> to the empty array and builds \<open>requestErrorThrow\<close> by looking up
  \<open>makeRequestCallFromTimer\<close> on a receiver and calling the result. The repository has the
  class twice. The file that carries \<open>Raw\<close> and \<open>Asap\<close> together reads
  \<open>this.makeRequestCallFromTimer(this.throwFirstError)\<close>: the receiver is the instance,
  which inherits the method from \<open>Raw\<close>. The file that imports \<open>Raw\<close> from \<open>./raw\<close>
  reads \<open>this.rawAsap.makeRequestCallFromTimer(this.throwFirstError)\<close>: the receiver is
  \<open>this.rawAsap\<close>, which the constructor of \<open>Raw\<close> has just replaced by
  \<open>this.rawAsap.bind(this)\<close>, a bound function. A bound function has no property of that
  name, the lookup yields \<open>undefined\<close>, and calling \<open>undefined\<close> raises a TypeError.
\<close>

datatype receiver = ThisObject | BoundRawAsap

definition get_makeRequestCallFromTimer :: "receiver \<Rightarrow> (callback \<Rightarrow> request_fn) option" where
  "get_makeRequestCallFromTimer r =
     (case r of ThisObject \<Rightarrow> Some makeRequestCallFromTimer | BoundRawAsap \<Rightarrow> None)"

definition Asap_constructor_on :: "receiver \<Rightarrow> bool \<Rightarrow> err + state" where
  "Asap_constructor_on r has_observer =
     (let s = (Raw_constructor has_observer)\<lparr>freeTasks := [], pendingErrors := []\<rparr>
      in case get_makeRequestCallFromTimer r of
           None \<Rightarrow> Inl TypeError
         | Some build \<Rightarrow> Inr (s\<lparr>requestErrorThrow := Some (build ThrowFirstError)\<rparr>))"

definition Asap_constructor_bundled :: "bool \<Rightarrow> err + state" where
  "Asap_constructor_bundled = Asap_constructor_on ThisObject"

definition Asap_constructor_importing :: "bool \<Rightarrow> err + state" where
  "Asap_constructor_importing = Asap_constructor_on BoundRawAsap"

text \<open>The scheduler that \<open>new Asap()\<close> yields where the constructor returns.\<close>

definition Asap_new :: "bool \<Rightarrow> state" where
  "Asap_new has_observer = projr (Asap_constructor_bundled has_observer)"

text \<open>
  \<open>getRawTask\<close> allocates a new task object whose \<open>task\<close> field is \<open>null\<close>; \<open>asap\<close> pops
  a task object off the free list if there is one, else gets a new one, binds the task to it
  and hands it to \<open>rawAsap\<close>.
\<close>

definition getRawTask :: "state \<Rightarrow> nat \<times> state" where
  "getRawTask s =
     (next_holder s,
      s\<lparr>holders := (holders s)(next_holder s := None), next_holder := next_holder s + 1\<rparr>)"

definition asap :: "task \<Rightarrow> state \<Rightarrow> state" where
  "asap t s =
     (let (rawTask, s1) =
            (if freeTasks s \<noteq> [] then (last (freeTasks s), s\<lparr>freeTasks := butlast (freeTasks s)\<rparr>)
             else getRawTask s);
          s2 = s1\<lparr>holders := (holders s1)(rawTask := Some t)\<rparr>
      in rawAsap (Holder rawTask) s2)"

text \<open>
  Running a task's body: it is recorded in \<open>executed\<close>, it schedules its tasks through the
  call each of them names, then it returns or throws.
\<close>

definition schedule_child :: "task \<Rightarrow> state \<Rightarrow> state" where
  "schedule_child c s = (case via c of ViaAsap \<Rightarrow> asap c s | ViaRawAsap \<Rightarrow> rawAsap (Plain c) s)"

definition run_task :: "task \<Rightarrow> state \<Rightarrow> err option \<times> state" where
  "run_task t s = (throws t, fold schedule_child (spawns t) (s\<lparr>executed := executed s @ [t]\<rparr>))"

text \<open>
  The \<open>call\<close> method of a task object, block by block. The \<open>try\<close> block calls the bound
  task; a \<open>null\<close> task field makes \<open>rawTask.task.call()\<close> a TypeError, raised inside the
  block. The \<open>catch\<close> block hands the error to the hook if there is one, else queues it and
  calls \<open>requestErrorThrow\<close>. The \<open>finally\<close> block clears the task field and pushes the
  object onto the free list. The first component of a result is the error that leaves the
  block, if any.
\<close>

definition try_block :: "nat \<Rightarrow> state \<Rightarrow> err option \<times> state" where
  "try_block rawTask s =
     (case holders s rawTask of None \<Rightarrow> (Some TypeError, s) | Some t \<Rightarrow> run_task t s)"

definition catch_block :: "err \<Rightarrow> state \<Rightarrow> err option \<times> state" where
  "catch_block error s =
     (case onerror s of
        Some hook \<Rightarrow> (hook error, s\<lparr>observed := observed s @ [error]\<rparr>)
      | None \<Rightarrow>
          (let s1 = s\<lparr>pendingErrors := pendingErrors s @ [error]\<rparr>
           in case requestErrorThrow s1 of
                None \<Rightarrow> (Some TypeError, s1)
              | Some rq \<Rightarrow> (None, call_request rq s1)))"

definition finally_block :: "nat \<Rightarrow> state \<Rightarrow> state" where
  "finally_block rawTask s =
     s\<lparr>holders := (holders s)(rawTask := None), freeTasks := freeTasks s @ [rawTask]\<rparr>"

definition call :: "nat \<Rightarrow> state \<Rightarrow> err option \<times> state" where
  "call rawTask s =
     (let (thrown, s1) = try_block rawTask s;
          (escaping, s2) =
            (case thrown of None \<Rightarrow> (None, s1) | Some error \<Rightarrow> catch_block error s1)
      in (escaping, finally_block rawTask s2))"

definition throwFirstError :: "state \<Rightarrow> err option \<times> state" where
  "throwFirstError s =
     (case pendingErrors s of [] \<Rightarrow> (None, s) | e # es \<Rightarrow> (Some e, s\<lparr>pendingErrors := es\<rparr>))"

section \<open>flush\<close>

definition call_entry :: "entry \<Rightarrow> state \<Rightarrow> err option \<times> state" where
  "call_entry e s = (case e of Plain t \<Rightarrow> run_task t s | Holder h \<Rightarrow> call h s)"

text \<open>
  The inner \<open>for\<close> loop of the compaction: \<open>queue[scan] = queue[scan + index]\<close> for
  \<open>scan\<close> from its current value up to \<open>newLength\<close>.
\<close>

function shift_down :: "nat \<Rightarrow> nat \<Rightarrow> nat \<Rightarrow> 'a list \<Rightarrow> 'a list" where
  "shift_down scan newLength idx q =
     (if scan < newLength then shift_down (scan + 1) newLength idx (q[scan := q ! (scan + idx)])
      else q)"
  by pat_completeness auto
termination
  by (relation "measure (\<lambda>(scan, newLength, idx, q). newLength - scan)") auto

declare shift_down.simps [simp del]

text \<open>
  The statement \<open>if (this.index > this.capacity) { ... }\<close>. Were the index beyond the
  length, the loop would not run and \<open>this.queue.length -= this.index\<close> would raise a
  RangeError.
\<close>

definition compaction :: "state \<Rightarrow> err option \<times> state" where
  "compaction s =
     (if index s > capacity s then
        (if index s \<le> length (queue s) then
           (let newLength = length (queue s) - index s;
                q = shift_down 0 newLength (index s) (queue s)
            in (None, s\<lparr>queue := take (length q - index s) q, index := 0\<rparr>))
         else (Some RangeError, s))
      else (None, s))"

text \<open>One pass through the body of the \<open>while\<close> loop of \<open>flush\<close>.\<close>

definition flush_body :: "state \<Rightarrow> err option \<times> state" where
  "flush_body s =
     (let currentIndex = index s;
          s1 = s\<lparr>index := index s + 1\<rparr>;
          (thrown, s2) = call_entry (queue s1 ! currentIndex) s1
      in case thrown of Some e \<Rightarrow> (Some e, s2) | None \<Rightarrow> compaction s2)"

definition flush_exit :: "state \<Rightarrow> state" where
  "flush_exit s = s\<lparr>queue := [], index := 0, flushing := False\<rparr>"

partial_function (option) flush :: "state \<Rightarrow> (err option \<times> state) option" where
  "flush s =
     (if index s < length (queue s) then
        (case flush_body s of
           (Some e, s') \<Rightarrow> Some (Some e, s')
         | (None, s') \<Rightarrow> flush s')
      else Some (None, flush_exit s))"

declare flush.simps [code]

section \<open>Notions used in the statements\<close>

text \<open>The entries that have not been invoked yet, and the tasks they carry.\<close>

definition pending :: "state \<Rightarrow> entry list" where
  "pending s = drop (index s) (queue s)"

fun carried :: "state \<Rightarrow> entry list \<Rightarrow> task list" where
  "carried s [] = []"
| "carried s (e # es) = (case entry_task s e of None \<Rightarrow> [] | Some t \<Rightarrow> [t]) @ carried s es"

definition pending_tasks :: "state \<Rightarrow> task list" where
  "pending_tasks s = carried s (pending s)"

text \<open>The errors thrown by a sequence of tasks, in the order of the tasks.\<close>

fun thrown_by :: "task list \<Rightarrow> err list" where
  "thrown_by [] = []"
| "thrown_by (t # ts) = (case throws t of None \<Rightarrow> [] | Some e \<Rightarrow> [e]) @ thrown_by ts"

fun holders_of :: "entry list \<Rightarrow> nat list" where
  "holders_of [] = []"
| "holders_of (Plain t # es) = holders_of es"
| "holders_of (Holder h # es) = h # holders_of es"

text \<open>The task object that the next call of \<open>asap\<close> binds: a free one, else a new one.\<close>

definition taken_holder :: "state \<Rightarrow> nat" where
  "taken_holder s = (if freeTasks s \<noteq> [] then last (freeTasks s) else next_holder s)"

text \<open>
  The task objects are used consistently: the index is within the queue, no object is awaiting invocation twice or is at
  once awaiting invocation and free, every object in use has been allocated, and the
  objects of \<open>X\<close> (the one whose \<open>call\<close> is running) are in neither list.
\<close>

definition heap_ok :: "nat set \<Rightarrow> state \<Rightarrow> bool" where
  "heap_ok X s \<longleftrightarrow>
     index s \<le> length (queue s) \<and>
     distinct (holders_of (pending s) @ freeTasks s) \<and>
     (\<forall>h \<in> set (holders_of (pending s)) \<union> set (freeTasks s) \<union> X. h < next_holder s) \<and>
     X \<inter> (set (holders_of (pending s)) \<union> set (freeTasks s)) = {}"

text \<open>What no call made while tasks run changes: the index and the configuration; the queue only grows.\<close>

definition frame :: "state \<Rightarrow> state \<Rightarrow> bool" where
  "frame s s' \<longleftrightarrow>
     index s' = index s \<and> capacity s' = capacity s \<and> requestFlush s' = requestFlush s \<and>
     requestErrorThrow s' = requestErrorThrow s \<and> onerror s' = onerror s \<and>
     (\<exists>es. queue s' = queue s @ es)"

text \<open>
  A well-formed state also has its records in step: the tasks handed to the queue are those
  that have run followed by those awaiting invocation.
\<close>

definition well_formed :: "state \<Rightarrow> bool" where
  "well_formed s \<longleftrightarrow> heap_ok {} s \<and> scheduled s = executed s @ pending_tasks s"

text \<open>The number of invocations a task stands for: itself and all it schedules.\<close>

fun weight :: "task \<Rightarrow> nat" where
  "weight (Task l v sp th) = Suc (sum_list (map weight sp))"

definition entry_weight :: "state \<Rightarrow> entry \<Rightarrow> nat" where
  "entry_weight s e = (case entry_task s e of None \<Rightarrow> 1 | Some t \<Rightarrow> weight t)"

definition load :: "state \<Rightarrow> nat" where
  "load s = sum_list (map (entry_weight s) (pending s))"

text \<open>A task that schedules through \<open>asap\<close> only, as do all the tasks it schedules.\<close>

fun asap_only :: "task \<Rightarrow> bool" where
  "asap_only (Task l v sp th) = (\<forall>c \<in> set sp. via c = ViaAsap \<and> asap_only c)"

definition hook_quiet :: "state \<Rightarrow> bool" where
  "hook_quiet s \<longleftrightarrow> (case onerror s of None \<Rightarrow> True | Some hook \<Rightarrow> \<forall>e. hook e = None)"

text \<open>
  The states of a scheduler used through \<open>asap\<close> alone: every entry awaiting invocation is
  a task object bound to a task that schedules through \<open>asap\<close>, \<open>requestErrorThrow\<close> has
  been built, and the test hook, if set, returns normally.
\<close>

definition entry_safe :: "state \<Rightarrow> entry \<Rightarrow> bool" where
  "entry_safe s e =
     (case e of Plain t \<Rightarrow> False
      | Holder h \<Rightarrow> (case holders s h of None \<Rightarrow> False | Some t \<Rightarrow> asap_only t))"

definition safe_state :: "state \<Rightarrow> bool" where
  "safe_state s \<longleftrightarrow>
     well_formed s \<and> list_all (entry_safe s) (pending s) \<and>
     requestErrorThrow s \<noteq> None \<and> hook_quiet s"

text \<open>
  The host answers each timer request for \<open>throwFirstError\<close> with one call of it;
  \<open>timer_turns n\<close> is \<open>n\<close> such calls in a row, with the errors they throw.
\<close>

fun timer_turns :: "nat \<Rightarrow> state \<Rightarrow> err list \<times> state" where
  "timer_turns 0 s = ([], s)"
| "timer_turns (Suc n) s =
     (let (thrown, s1) = throwFirstError s;
          (rest, s2) = timer_turns n s1
      in ((case thrown of None \<Rightarrow> [] | Some e \<Rightarrow> [e]) @ rest, s2))"

text \<open>
  The states the scheduler can be in at any point where other code can observe it: after
  construction, after a call of \<open>rawAsap\<close> or \<open>asap\<close> (from outside or from a running
  task), when \<open>flush\<close> has advanced the index and invokes a task, when the task has returned
  or thrown, at the end of a pass through the loop (after the compaction), when \<open>flush\<close>
  has returned or thrown, and after \<open>throwFirstError\<close>.
\<close>

inductive_set reachable :: "state set" where
  constructed_raw: "Raw_constructor obs \<in> reachable"
| constructed_asap: "Asap_constructor_on r obs = Inr s \<Longrightarrow> s \<in> reachable"
| hook_set: "s \<in> reachable \<Longrightarrow> s\<lparr>onerror := hook\<rparr> \<in> reachable"
| scheduled_raw: "s \<in> reachable \<Longrightarrow> rawAsap (Plain t) s \<in> reachable"
| scheduled_asap: "s \<in> reachable \<Longrightarrow> asap t s \<in> reachable"
| advanced: "s \<in> reachable \<Longrightarrow> index s < length (queue s) \<Longrightarrow> s\<lparr>index := index s + 1\<rparr> \<in> reachable"
| invoked: "s \<in> reachable \<Longrightarrow> index s < length (queue s) \<Longrightarrow>
     call_entry (queue s ! index s) (s\<lparr>index := index s + 1\<rparr>) = (r, s') \<Longrightarrow> s' \<in> reachable"
| passed: "s \<in> reachable \<Longrightarrow> index s < length (queue s) \<Longrightarrow> flush_body s = (r, s') \<Longrightarrow>
     s' \<in> reachable"
| flushed: "s \<in> reachable \<Longrightarrow> flush s = Some (r, s') \<Longrightarrow> s' \<in> reachable"
| rethrown: "s \<in> reachable \<Longrightarrow> throwFirstError s = (r, s') \<Longrightarrow> s' \<in> reachable"

section \<open>Scheduling\<close>

lemma rawAsap_fields:
  "queue (rawAsap e s) = queue s @ [e]"
  "index (rawAsap e s) = index s"
  "capacity (rawAsap e s) = capacity s"
  "requestFlush (rawAsap e s) = requestFlush s"
  "freeTasks (rawAsap e s) = freeTasks s"
  "pendingErrors (rawAsap e s) = pendingErrors s"
  "requestErrorThrow (rawAsap e s) = requestErrorThrow s"
  "onerror (rawAsap e s) = onerror s"
  "holders (rawAsap e s) = holders s"
  "next_holder (rawAsap e s) = next_holder s"
  "executed (rawAsap e s) = executed s"
  "observed (rawAsap e s) = observed s"
  by (simp_all add: rawAsap_def call_request_def Let_def)

lemma rawAsap_requested:
  "requested (rawAsap e s) = requested s @ (if queue s = [] then [requestFlush s] else [])"
  by (simp add: rawAsap_def call_request_def Let_def)

lemma rawAsap_flushing:
  "flushing (rawAsap e s) = (if queue s = [] then True else flushing s)"
  by (simp add: rawAsap_def call_request_def Let_def)

lemma rawAsap_scheduled:
  "scheduled (rawAsap e s) = scheduled s @ (case entry_task s e of None \<Rightarrow> [] | Some t \<Rightarrow> [t])"
  by (simp add: rawAsap_def call_request_def Let_def entry_task_def split: entry.splits)

lemma fold_rawAsap_nonempty:
  "queue s \<noteq> [] \<Longrightarrow> requested (fold rawAsap es s) = requested s"
  by (induction es arbitrary: s) (simp_all add: rawAsap_fields rawAsap_requested)

lemma fold_rawAsap_queue: "queue (fold rawAsap es s) = queue s @ es"
  by (induction es arbitrary: s) (simp_all add: rawAsap_fields)

text \<open>
  Claim C4. Every call of \<open>rawAsap\<close> appends its argument at the tail of the queue. It
  invokes the request function, and sets the flushing flag, exactly when the queue was empty
  just before the call. So scheduling any number of entries starting from an empty queue
  invokes the request function once, and scheduling into a queue that is not empty never
  invokes it.
\<close>

theorem rawAsap_requests_iff_queue_was_empty:
  "queue (rawAsap e s) = queue s @ [e] \<and>
   requested (rawAsap e s) = requested s @ (if queue s = [] then [requestFlush s] else []) \<and>
   flushing (rawAsap e s) = (if queue s = [] then True else flushing s) \<and>
   (queue s = [] \<longrightarrow> requested (fold rawAsap (e # es) s) = requested s @ [requestFlush s]) \<and>
   (queue s \<noteq> [] \<longrightarrow> requested (fold rawAsap es s) = requested s)"
  by (simp add: rawAsap_fields rawAsap_requested rawAsap_flushing fold_rawAsap_nonempty)

theorem rawAsap_requests_iff_queue_was_empty_witness:
  "requested (fold rawAsap [Plain (Task 1 ViaRawAsap [] None), Plain (Task 2 ViaRawAsap [] None)]
     (Raw_constructor True)) = [RequestCall Observation Flush] \<and>
   queue (rawAsap (Plain (Task 1 ViaRawAsap [] None)) (Raw_constructor True)) =
     [Plain (Task 1 ViaRawAsap [] None)] \<and>
   flushing (rawAsap (Plain (Task 1 ViaRawAsap [] None)) (Raw_constructor True)) \<and>
   requested (fold rawAsap [Plain (Task 3 ViaRawAsap [] None)]
     (rawAsap (Plain (Task 1 ViaRawAsap [] None)) (Raw_constructor True))) =
     [RequestCall Observation Flush]"
  using rawAsap_requests_iff_queue_was_empty
      [of "Plain (Task 1 ViaRawAsap [] None)" "Raw_constructor True"
          "[Plain (Task 2 ViaRawAsap [] None)]"]
    rawAsap_requests_iff_queue_was_empty
      [of "Plain (Task 1 ViaRawAsap [] None)"
          "rawAsap (Plain (Task 1 ViaRawAsap [] None)) (Raw_constructor True)"
          "[Plain (Task 3 ViaRawAsap [] None)]"]
  by (simp add: Raw_constructor_def makeRequestCallFromMutationObserver_def)

text \<open>
  Where the constructor returns (the file that carries both classes), \<open>requestErrorThrow\<close>
  is the request function made from the timer, and with it the \<open>catch\<close> block queues the
  error of a task and asks the host for a timer turn when no hook is set.
\<close>

lemma bundled_constructor_builds_timer_request:
  "\<exists>s. Asap_constructor_bundled has_observer = Inr s \<and>
       requestErrorThrow s = Some (makeRequestCallFromTimer ThrowFirstError) \<and>
       makeRequestCallFromTimer ThrowFirstError = RequestCall Timer ThrowFirstError"
  by (simp add: Asap_constructor_bundled_def Asap_constructor_on_def
      get_makeRequestCallFromTimer_def makeRequestCallFromTimer_def)

lemma unhandled_error_goes_to_timer:
  assumes "onerror s = None" and "requestErrorThrow s = Some (RequestCall Timer ThrowFirstError)"
  shows "catch_block e s =
    (None, s\<lparr>pendingErrors := pendingErrors s @ [e],
              requested := requested s @ [RequestCall Timer ThrowFirstError]\<rparr>)"
  using assms by (simp add: catch_block_def call_request_def Let_def)

text \<open>
  Claim C3. In the file that imports \<open>Raw\<close> from \<open>./raw\<close>, the constructor of \<open>Asap\<close>
  does not build \<open>requestErrorThrow\<close>: it raises a TypeError, whatever the host offers.
\<close>

theorem importing_constructor_throws:
  "Asap_constructor_importing has_observer = Inl TypeError"
  by (simp add: Asap_constructor_importing_def Asap_constructor_on_def
      get_makeRequestCallFromTimer_def)

section \<open>Compaction\<close>


lemma shift_down_length: "length (shift_down scan n idx q) = length q"
proof (induction scan n idx q rule: shift_down.induct)
  case (1 scan n idx q)
  then show ?case by (subst shift_down.simps) simp
qed

lemma shift_down_nth:
  "i < length q \<Longrightarrow>
   shift_down scan n idx q ! i = (if scan \<le> i \<and> i < n then q ! (i + idx) else q ! i)"
proof (induction scan n idx q rule: shift_down.induct)
  case (1 scan n idx q)
  show ?case
  proof (cases "scan < n")
    case True
    have "shift_down scan n idx q = shift_down (scan + 1) n idx (q[scan := q ! (scan + idx)])"
      using True by (subst shift_down.simps) simp
    moreover have "shift_down (scan + 1) n idx (q[scan := q ! (scan + idx)]) ! i =
      (if scan + 1 \<le> i \<and> i < n then q[scan := q ! (scan + idx)] ! (i + idx)
       else q[scan := q ! (scan + idx)] ! i)"
      using "1.IH"[OF True] "1.prems" by simp
    moreover have "i = scan \<or> Suc scan \<le> i \<or> i < scan" by arith
    ultimately show ?thesis
      using True "1.prems" by (auto simp: nth_list_update)
  next
    case False
    then show ?thesis by (subst shift_down.simps) auto
  qed
qed

lemma shift_down_drop:
  assumes "idx \<le> length q"
  shows "take (length q - idx) (shift_down 0 (length q - idx) idx q) = drop idx q"
proof (rule nth_equalityI)
  show "length (take (length q - idx) (shift_down 0 (length q - idx) idx q)) = length (drop idx q)"
    by (simp add: shift_down_length)
next
  fix i
  assume "i < length (take (length q - idx) (shift_down 0 (length q - idx) idx q))"
  then have i: "i < length q - idx" by (simp add: shift_down_length)
  then show "take (length q - idx) (shift_down 0 (length q - idx) idx q) ! i = drop idx q ! i"
    using assms by (simp add: shift_down_nth add.commute)
qed

lemma compaction_eq:
  "compaction s =
     (if capacity s < index s then
        if index s \<le> length (queue s)
        then (None, s\<lparr>queue := drop (index s) (queue s), index := 0\<rparr>)
        else (Some RangeError, s)
      else (None, s))"
  by (simp add: compaction_def Let_def shift_down_length shift_down_drop)

section \<open>What \<open>asap\<close> changes\<close>

lemma asap_fields:
  "queue (asap t s) = queue s @ [Holder (taken_holder s)]"
  "index (asap t s) = index s"
  "capacity (asap t s) = capacity s"
  "requestFlush (asap t s) = requestFlush s"
  "freeTasks (asap t s) = butlast (freeTasks s)"
  "pendingErrors (asap t s) = pendingErrors s"
  "requestErrorThrow (asap t s) = requestErrorThrow s"
  "onerror (asap t s) = onerror s"
  "holders (asap t s) = (holders s)(taken_holder s := Some t)"
  "next_holder (asap t s) = (if freeTasks s = [] then Suc (next_holder s) else next_holder s)"
  "executed (asap t s) = executed s"
  "observed (asap t s) = observed s"
  "scheduled (asap t s) = scheduled s @ [t]"
  by (simp_all add: asap_def getRawTask_def taken_holder_def rawAsap_fields rawAsap_scheduled
      entry_task_def Let_def)

lemma asap_requested:
  "requested (asap t s) = requested s @ (if queue s = [] then [requestFlush s] else [])"
  by (simp add: asap_def getRawTask_def rawAsap_requested Let_def)

lemma asap_flushing:
  "flushing (asap t s) = (if queue s = [] then True else flushing s)"
  by (simp add: asap_def getRawTask_def rawAsap_flushing Let_def)

section \<open>Entries awaiting invocation\<close>

lemma holders_of_append: "holders_of (xs @ ys) = holders_of xs @ holders_of ys"
  by (induction xs rule: holders_of.induct) simp_all

lemma Holder_in_set: "Holder h \<in> set es \<longleftrightarrow> h \<in> set (holders_of es)"
  by (induction es rule: holders_of.induct) auto

lemma entry_task_eqI:
  "(\<And>h. e = Holder h \<Longrightarrow> holders s' h = holders s h) \<Longrightarrow> entry_task s' e = entry_task s e"
  by (cases e) (simp_all add: entry_task_def)

lemma carried_append: "carried s (xs @ ys) = carried s xs @ carried s ys"
  by (induction xs) simp_all

lemma carried_eqI:
  "(\<And>h. h \<in> set (holders_of es) \<Longrightarrow> holders s' h = holders s h) \<Longrightarrow>
   carried s' es = carried s es"
proof (induction es rule: holders_of.induct)
  case 1
  then show ?case by simp
next
  case (2 t es)
  then show ?case by (simp add: entry_task_def)
next
  case (3 h es)
  then show ?case by (simp add: entry_task_def)
qed

lemma pending_append:
  assumes "index s' = index s" "queue s' = queue s @ es" "index s \<le> length (queue s)"
  shows "pending s' = pending s @ es"
  using assms by (simp add: pending_def)

lemma pending_tasks_append:
  assumes "pending s' = pending s @ es"
    and "\<And>h. h \<in> set (holders_of (pending s)) \<Longrightarrow> holders s' h = holders s h"
  shows "pending_tasks s' = pending_tasks s @ carried s' es"
  using carried_eqI[of "pending s" s' s] assms
  by (simp add: pending_tasks_def carried_append)

lemma entry_weight_map_eqI:
  assumes "\<And>h. h \<in> set (holders_of es) \<Longrightarrow> holders s' h = holders s h"
  shows "map (entry_weight s') es = map (entry_weight s) es"
  using assms by (auto simp: entry_weight_def Holder_in_set intro!: arg_cong[where f="case_option _ _"] entry_task_eqI)

lemma entry_safe_all_eqI:
  assumes "\<And>h. h \<in> set (holders_of es) \<Longrightarrow> holders s' h = holders s h"
  shows "list_all (entry_safe s') es = list_all (entry_safe s) es"
  using assms
  by (induction es rule: holders_of.induct) (simp_all add: entry_safe_def)

section \<open>Scheduling keeps the task objects consistent\<close>

lemma frame_refl: "frame s s"
  by (simp add: frame_def)

lemma frame_trans: "frame s s' \<Longrightarrow> frame s' s'' \<Longrightarrow> frame s s''"
  by (auto simp: frame_def)

lemma frame_rawAsap: "frame s (rawAsap e s)"
  by (simp add: frame_def rawAsap_fields)

lemma frame_asap: "frame s (asap t s)"
  by (simp add: frame_def asap_fields)

lemma taken_holder_fresh:
  assumes "heap_ok X s"
  shows "taken_holder s \<notin> set (holders_of (pending s))" "taken_holder s \<notin> X"
    "taken_holder s \<notin> set (butlast (freeTasks s))"
proof -
  show "taken_holder s \<notin> set (holders_of (pending s))"
  proof (cases "freeTasks s = []")
    case True
    then show ?thesis using assms by (auto simp: heap_ok_def taken_holder_def)
  next
    case False
    then have "last (freeTasks s) \<in> set (freeTasks s)" by simp
    then show ?thesis using assms False by (auto simp: heap_ok_def taken_holder_def)
  qed
  show "taken_holder s \<notin> X"
  proof (cases "freeTasks s = []")
    case True
    then show ?thesis using assms by (auto simp: heap_ok_def taken_holder_def)
  next
    case False
    then have "last (freeTasks s) \<in> set (freeTasks s)" by simp
    then show ?thesis using assms False by (auto simp: heap_ok_def taken_holder_def)
  qed
  show "taken_holder s \<notin> set (butlast (freeTasks s))"
  proof (cases "freeTasks s = []")
    case True
    then show ?thesis by simp
  next
    case False
    then have "freeTasks s = butlast (freeTasks s) @ [last (freeTasks s)]" by simp
    moreover have "distinct (freeTasks s)" using assms by (simp add: heap_ok_def)
    ultimately have "last (freeTasks s) \<notin> set (butlast (freeTasks s))"
      by (metis distinct.simps(2) distinct1_rotate rotate1.simps(2))
    then show ?thesis using False by (simp add: taken_holder_def)
  qed
qed

lemma pending_asap:
  "heap_ok X s \<Longrightarrow> pending (asap t s) = pending s @ [Holder (taken_holder s)]"
  by (rule pending_append) (simp_all add: asap_fields heap_ok_def)

lemma pending_rawAsap:
  "heap_ok X s \<Longrightarrow> pending (rawAsap e s) = pending s @ [e]"
  by (rule pending_append) (simp_all add: rawAsap_fields heap_ok_def)

lemma heap_ok_rawAsap: "heap_ok X s \<Longrightarrow> heap_ok X (rawAsap (Plain t) s)"
  using pending_rawAsap[of X s "Plain t"]
  by (simp add: heap_ok_def rawAsap_fields holders_of_append)

lemma heap_ok_asap:
  assumes "heap_ok X s"
  shows "heap_ok X (asap t s)"
proof -
  note fresh = taken_holder_fresh[OF assms]
  have bl: "set (butlast (freeTasks s)) \<subseteq> set (freeTasks s)"
    by (meson in_set_butlastD subsetI)
  have lt: "taken_holder s < next_holder (asap t s)"
  proof (cases "freeTasks s = []")
    case True
    then show ?thesis by (simp add: asap_fields taken_holder_def)
  next
    case False
    then have "last (freeTasks s) \<in> set (freeTasks s)" by simp
    then show ?thesis using assms False by (auto simp: heap_ok_def taken_holder_def asap_fields)
  qed
  have "distinct (butlast (freeTasks s))"
    using assms by (simp add: heap_ok_def distinct_butlast)
  then show ?thesis
    using assms fresh bl lt pending_asap[OF assms, of t]
    by (auto simp: heap_ok_def asap_fields holders_of_append less_Suc_eq)
qed

lemma pending_tasks_asap:
  assumes "heap_ok X s"
  shows "pending_tasks (asap t s) = pending_tasks s @ [t]"
proof -
  have "pending_tasks (asap t s) = pending_tasks s @ carried (asap t s) [Holder (taken_holder s)]"
    using taken_holder_fresh(1)[OF assms]
    by (intro pending_tasks_append pending_asap[OF assms]) (auto simp: asap_fields)
  then show ?thesis by (simp add: entry_task_def asap_fields)
qed

lemma pending_tasks_rawAsap:
  assumes "heap_ok X s"
  shows "pending_tasks (rawAsap (Plain t) s) = pending_tasks s @ [t]"
proof -
  have "pending_tasks (rawAsap (Plain t) s) = pending_tasks s @ carried (rawAsap (Plain t) s) [Plain t]"
    by (intro pending_tasks_append pending_rawAsap[OF assms]) (simp add: rawAsap_fields)
  then show ?thesis by (simp add: entry_task_def)
qed

lemma load_asap:
  assumes "heap_ok X s"
  shows "load (asap t s) = load s + weight t"
proof -
  have eq: "map (entry_weight (asap t s)) (pending s) = map (entry_weight s) (pending s)"
    using taken_holder_fresh(1)[OF assms]
    by (intro entry_weight_map_eqI) (auto simp: asap_fields)
  have "load (asap t s) = load s + entry_weight (asap t s) (Holder (taken_holder s))"
    by (simp add: load_def pending_asap[OF assms] eq)
  then show ?thesis
    by (simp add: entry_weight_def entry_task_def asap_fields)
qed

lemma load_rawAsap:
  assumes "heap_ok X s"
  shows "load (rawAsap (Plain t) s) = load s + weight t"
proof -
  have eq: "map (entry_weight (rawAsap (Plain t) s)) (pending s) = map (entry_weight s) (pending s)"
    by (intro entry_weight_map_eqI) (simp add: rawAsap_fields)
  have "load (rawAsap (Plain t) s) = load s + entry_weight (rawAsap (Plain t) s) (Plain t)"
    by (simp add: load_def pending_rawAsap[OF assms] eq)
  then show ?thesis
    by (simp add: entry_weight_def entry_task_def)
qed

lemma safe_asap:
  assumes "heap_ok X s" "list_all (entry_safe s) (pending s)" "asap_only t"
  shows "list_all (entry_safe (asap t s)) (pending (asap t s))"
proof -
  have "list_all (entry_safe (asap t s)) (pending s) = list_all (entry_safe s) (pending s)"
    using taken_holder_fresh(1)[OF assms(1)]
    by (intro entry_safe_all_eqI) (auto simp: asap_fields)
  then show ?thesis
    using assms by (simp add: pending_asap[OF assms(1)] entry_safe_def asap_fields)
qed

section \<open>Running a task\<close>

lemma schedule_child_frame: "frame s (schedule_child c s)"
  by (simp add: schedule_child_def frame_asap frame_rawAsap split: kind.splits)

lemma schedule_child_fields:
  "executed (schedule_child c s) = executed s"
  "pendingErrors (schedule_child c s) = pendingErrors s"
  "observed (schedule_child c s) = observed s"
  "scheduled (schedule_child c s) = scheduled s @ [c]"
  "requested (schedule_child c s) = requested s @ (if queue s = [] then [requestFlush s] else [])"
  "flushing (schedule_child c s) = (if queue s = [] then True else flushing s)"
  by (simp_all add: schedule_child_def asap_fields rawAsap_fields rawAsap_scheduled entry_task_def
      asap_requested rawAsap_requested asap_flushing rawAsap_flushing split: kind.splits)

lemma schedule_child_heap:
  assumes "heap_ok X s"
  shows "heap_ok X (schedule_child c s)"
    "pending_tasks (schedule_child c s) = pending_tasks s @ [c]"
    "load (schedule_child c s) = load s + weight c"
  using assms
  by (simp_all add: schedule_child_def heap_ok_asap heap_ok_rawAsap pending_tasks_asap
      pending_tasks_rawAsap load_asap load_rawAsap split: kind.splits)

lemma schedule_child_safe:
  assumes "heap_ok X s" "list_all (entry_safe s) (pending s)" "via c = ViaAsap" "asap_only c"
  shows "list_all (entry_safe (schedule_child c s)) (pending (schedule_child c s))"
  using assms by (simp add: schedule_child_def safe_asap)

lemma fold_schedule_frame: "frame s (fold schedule_child cs s)"
proof (induction cs arbitrary: s)
  case Nil
  show ?case by (simp add: frame_refl)
next
  case (Cons c cs)
  show ?case using frame_trans[OF schedule_child_frame Cons.IH] by simp
qed

lemma frame_queue_nonempty: "frame s s' \<Longrightarrow> queue s \<noteq> [] \<Longrightarrow> queue s' \<noteq> []"
  by (auto simp: frame_def)

lemma fold_schedule_fields:
  "executed (fold schedule_child cs s) = executed s"
  "pendingErrors (fold schedule_child cs s) = pendingErrors s"
  "observed (fold schedule_child cs s) = observed s"
  "scheduled (fold schedule_child cs s) = scheduled s @ cs"
  by (induction cs arbitrary: s) (simp_all add: schedule_child_fields)

lemma fold_schedule_requested:
  assumes "queue s \<noteq> []"
  shows "requested (fold schedule_child cs s) = requested s \<and>
         flushing (fold schedule_child cs s) = flushing s"
  using assms
proof (induction cs arbitrary: s)
  case Nil
  show ?case by simp
next
  case (Cons c cs)
  have "queue (schedule_child c s) \<noteq> []"
    using frame_queue_nonempty[OF schedule_child_frame Cons.prems] .
  from Cons.IH[OF this] show ?case
    using Cons.prems by (simp add: schedule_child_fields)
qed

lemma fold_schedule_heap:
  assumes "heap_ok X s"
  shows "heap_ok X (fold schedule_child cs s) \<and>
    pending_tasks (fold schedule_child cs s) = pending_tasks s @ cs \<and>
    load (fold schedule_child cs s) = load s + sum_list (map weight cs)"
  using assms
proof (induction cs arbitrary: s)
  case Nil
  then show ?case by simp
next
  case (Cons c cs)
  show ?case
    using Cons.IH[OF schedule_child_heap(1)[OF Cons.prems]] schedule_child_heap(2,3)[OF Cons.prems]
    by simp
qed

lemma fold_schedule_safe:
  assumes "heap_ok X s" "list_all (entry_safe s) (pending s)"
    "\<forall>c\<in>set cs. via c = ViaAsap \<and> asap_only c"
  shows "list_all (entry_safe (fold schedule_child cs s)) (pending (fold schedule_child cs s))"
  using assms
proof (induction cs arbitrary: s)
  case Nil
  then show ?case by simp
next
  case (Cons c cs)
  show ?case
    using Cons.IH[OF schedule_child_heap(1)[OF Cons.prems(1)]
        schedule_child_safe[OF Cons.prems(1,2)]] Cons.prems(3)
    by simp
qed

lemma heap_cong:
  assumes "index s' = index s" "queue s' = queue s" "freeTasks s' = freeTasks s"
    "next_holder s' = next_holder s"
    "\<And>h. h \<in> set (holders_of (pending s)) \<Longrightarrow> holders s' h = holders s h"
  shows "pending s' = pending s" "heap_ok X s' = heap_ok X s"
    "pending_tasks s' = pending_tasks s" "load s' = load s"
    "list_all (entry_safe s') (pending s') = list_all (entry_safe s) (pending s)"
proof -
  show p: "pending s' = pending s" using assms(1,2) by (simp add: pending_def)
  show "heap_ok X s' = heap_ok X s" using assms(1-4) p by (simp add: heap_ok_def)
  show "pending_tasks s' = pending_tasks s"
    using carried_eqI[of "pending s" s' s] assms(5) by (simp add: pending_tasks_def p)
  show "load s' = load s"
    by (simp add: load_def p entry_weight_map_eqI[of "pending s" s' s, OF assms(5)])
  show "list_all (entry_safe s') (pending s') = list_all (entry_safe s) (pending s)"
    using entry_safe_all_eqI[of "pending s" s' s] assms(5) by (simp add: p)
qed

lemma run_task_frame: "frame s (snd (run_task t s))"
  using fold_schedule_frame[of "s\<lparr>executed := executed s @ [t]\<rparr>" "spawns t"]
  by (simp add: run_task_def frame_def)

lemma run_task_fields:
  "fst (run_task t s) = throws t"
  "executed (snd (run_task t s)) = executed s @ [t]"
  "pendingErrors (snd (run_task t s)) = pendingErrors s"
  "observed (snd (run_task t s)) = observed s"
  "scheduled (snd (run_task t s)) = scheduled s @ spawns t"
  by (simp_all add: run_task_def fold_schedule_fields)

lemma run_task_requested:
  assumes "queue s \<noteq> []"
  shows "requested (snd (run_task t s)) = requested s" "flushing (snd (run_task t s)) = flushing s"
  using fold_schedule_requested[of "s\<lparr>executed := executed s @ [t]\<rparr>" "spawns t"] assms
  by (simp_all add: run_task_def)

lemma run_task_heap:
  assumes "heap_ok X s"
  shows "heap_ok X (snd (run_task t s))"
    "pending_tasks (snd (run_task t s)) = pending_tasks s @ spawns t"
    "load (snd (run_task t s)) = load s + sum_list (map weight (spawns t))"
proof -
  let ?s = "s\<lparr>executed := executed s @ [t]\<rparr>"
  have "heap_ok X ?s = heap_ok X s" by (rule heap_cong) simp_all
  moreover have "pending_tasks ?s = pending_tasks s" by (rule heap_cong) simp_all
  moreover have "load ?s = load s" by (rule heap_cong) simp_all
  ultimately have h: "heap_ok X ?s" "pending_tasks ?s = pending_tasks s" "load ?s = load s"
    using assms by simp_all
  from fold_schedule_heap[OF h(1), of "spawns t"] h(2,3)
  show "heap_ok X (snd (run_task t s))"
    "pending_tasks (snd (run_task t s)) = pending_tasks s @ spawns t"
    "load (snd (run_task t s)) = load s + sum_list (map weight (spawns t))"
    by (simp_all add: run_task_def)
qed

lemma asap_only_spawns: "asap_only t \<Longrightarrow> \<forall>c\<in>set (spawns t). via c = ViaAsap \<and> asap_only c"
  by (cases t) simp

lemma run_task_safe:
  assumes "heap_ok X s" "list_all (entry_safe s) (pending s)" "asap_only t"
  shows "list_all (entry_safe (snd (run_task t s))) (pending (snd (run_task t s)))"
proof -
  let ?s = "s\<lparr>executed := executed s @ [t]\<rparr>"
  have "heap_ok X ?s = heap_ok X s" by (rule heap_cong) simp_all
  moreover have "list_all (entry_safe ?s) (pending ?s) = list_all (entry_safe s) (pending s)"
    by (rule heap_cong) simp_all
  ultimately have h: "heap_ok X ?s" "list_all (entry_safe ?s) (pending ?s)"
    using assms by simp_all
  from fold_schedule_safe[OF h asap_only_spawns[OF assms(3)]]
  show ?thesis by (simp add: run_task_def)
qed

lemma weight_spawns: "sum_list (map weight (spawns t)) < weight t"
  by (cases t) simp

section \<open>The call of a task object\<close>

lemma catch_block_same:
  "index (snd (catch_block e s)) = index s"
  "queue (snd (catch_block e s)) = queue s"
  "freeTasks (snd (catch_block e s)) = freeTasks s"
  "next_holder (snd (catch_block e s)) = next_holder s"
  "holders (snd (catch_block e s)) = holders s"
  "capacity (snd (catch_block e s)) = capacity s"
  "requestFlush (snd (catch_block e s)) = requestFlush s"
  "requestErrorThrow (snd (catch_block e s)) = requestErrorThrow s"
  "onerror (snd (catch_block e s)) = onerror s"
  "executed (snd (catch_block e s)) = executed s"
  "scheduled (snd (catch_block e s)) = scheduled s"
  "flushing (snd (catch_block e s)) = flushing s"
  by (simp_all add: catch_block_def call_request_def Let_def split: option.splits)

lemma catch_block_heap:
  "pending (snd (catch_block e s)) = pending s"
  "heap_ok X (snd (catch_block e s)) = heap_ok X s"
  "pending_tasks (snd (catch_block e s)) = pending_tasks s"
  "load (snd (catch_block e s)) = load s"
  "list_all (entry_safe (snd (catch_block e s))) (pending (snd (catch_block e s))) =
   list_all (entry_safe s) (pending s)"
  by (rule heap_cong; simp add: catch_block_same)+

lemma finally_block_heap:
  assumes "heap_ok {h} s"
  shows "heap_ok {} (finally_block h s)"
    "pending (finally_block h s) = pending s"
    "pending_tasks (finally_block h s) = pending_tasks s"
    "load (finally_block h s) = load s"
    "list_all (entry_safe (finally_block h s)) (pending (finally_block h s)) =
     list_all (entry_safe s) (pending s)"
proof -
  have notin: "h \<notin> set (holders_of (pending s))" using assms by (simp add: heap_ok_def)
  show p: "pending (finally_block h s) = pending s"
    by (simp add: pending_def finally_block_def)
  show "heap_ok {} (finally_block h s)"
    using assms by (auto simp: heap_ok_def p) (auto simp: finally_block_def)
  have same: "\<And>h'. h' \<in> set (holders_of (pending s)) \<Longrightarrow>
      holders (finally_block h s) h' = holders s h'"
    using notin by (auto simp: finally_block_def)
  show "pending_tasks (finally_block h s) = pending_tasks s"
    using carried_eqI[of "pending s" "finally_block h s" s, OF same]
    by (simp add: pending_tasks_def p)
  show "load (finally_block h s) = load s"
    by (simp add: load_def p entry_weight_map_eqI[of "pending s" "finally_block h s" s, OF same])
  show "list_all (entry_safe (finally_block h s)) (pending (finally_block h s)) =
     list_all (entry_safe s) (pending s)"
    using entry_safe_all_eqI[of "pending s" "finally_block h s" s, OF same] by (simp add: p)
qed

lemma finally_block_same:
  "index (finally_block h s) = index s"
  "queue (finally_block h s) = queue s"
  "capacity (finally_block h s) = capacity s"
  "requestFlush (finally_block h s) = requestFlush s"
  "requestErrorThrow (finally_block h s) = requestErrorThrow s"
  "onerror (finally_block h s) = onerror s"
  "executed (finally_block h s) = executed s"
  "scheduled (finally_block h s) = scheduled s"
  "pendingErrors (finally_block h s) = pendingErrors s"
  "observed (finally_block h s) = observed s"
  "requested (finally_block h s) = requested s"
  "flushing (finally_block h s) = flushing s"
  by (simp_all add: finally_block_def)

lemma try_block_frame: "frame s (snd (try_block h s))"
  by (simp add: try_block_def frame_refl run_task_frame split: option.splits)

lemma try_block_fields:
  "executed (snd (try_block h s)) = executed s @ carried s [Holder h]"
  "scheduled (snd (try_block h s)) = scheduled s @ concat (map spawns (carried s [Holder h]))"
  "pendingErrors (snd (try_block h s)) = pendingErrors s"
  "observed (snd (try_block h s)) = observed s"
  by (simp_all add: try_block_def entry_task_def run_task_fields split: option.splits)

lemma try_block_heap:
  assumes "heap_ok X s"
  shows "heap_ok X (snd (try_block h s))"
    "pending_tasks (snd (try_block h s)) =
       pending_tasks s @ concat (map spawns (carried s [Holder h]))"
    "load (snd (try_block h s)) < load s + entry_weight s (Holder h)"
  using assms run_task_heap[OF assms] weight_spawns
  by (auto simp: try_block_def entry_task_def entry_weight_def add_strict_left_mono
      split: option.splits)

lemma call_cases:
  obtains (returned) s1 where "try_block h s = (None, s1)" "call h s = (None, finally_block h s1)"
  | (caught) e s1 where "try_block h s = (Some e, s1)"
      "call h s = (fst (catch_block e s1), finally_block h (snd (catch_block e s1)))"
proof -
  obtain thrown s1 where t: "try_block h s = (thrown, s1)" by force
  show ?thesis
  proof (cases thrown)
    case None
    with t show ?thesis by (intro returned[of s1]) (simp_all add: call_def)
  next
    case (Some e)
    with t show ?thesis
      by (intro caught[of e s1]) (simp_all add: call_def split: prod.splits)
  qed
qed

lemma catch_block_frame: "frame s (snd (catch_block e s))"
  by (simp add: frame_def catch_block_same)

lemma finally_block_frame: "frame s (finally_block h s)"
  by (simp add: frame_def finally_block_same)

lemma call_frame: "frame s (snd (call h s))"
proof (cases rule: call_cases[of h s])
  case (returned s1)
  then show ?thesis
    using try_block_frame[of s h] finally_block_frame[of s1 h] by (auto intro: frame_trans)
next
  case (caught e s1)
  then show ?thesis
    using try_block_frame[of s h] catch_block_frame[of s1 e]
      finally_block_frame[of "snd (catch_block e s1)" h]
    by (auto intro: frame_trans)
qed

lemma call_heap:
  assumes "heap_ok {h} s"
  shows "heap_ok {} (snd (call h s)) \<and>
    pending_tasks (snd (call h s)) = pending_tasks s @ concat (map spawns (carried s [Holder h])) \<and>
    load (snd (call h s)) < load s + entry_weight s (Holder h) \<and>
    executed (snd (call h s)) = executed s @ carried s [Holder h] \<and>
    scheduled (snd (call h s)) = scheduled s @ concat (map spawns (carried s [Holder h]))"
proof (cases rule: call_cases[of h s])
  case (returned s1)
  then show ?thesis
    using try_block_heap[OF assms, of h] try_block_fields[of h s]
      finally_block_heap[of h s1]
    by (simp add: finally_block_same)
next
  case (caught e s1)
  then show ?thesis
    using try_block_heap[OF assms, of h] try_block_fields[of h s]
      finally_block_heap[of h "snd (catch_block e s1)"]
    by (simp add: finally_block_same catch_block_heap catch_block_same)
qed

section \<open>One pass through the loop of \<open>flush\<close>\<close>

lemma call_entry_frame: "frame s (snd (call_entry e s))"
  by (cases e) (simp_all add: call_entry_def run_task_frame call_frame)

lemma call_entry_heap:
  assumes "heap_ok (set (holders_of [e])) s"
  shows "heap_ok {} (snd (call_entry e s)) \<and>
    pending_tasks (snd (call_entry e s)) = pending_tasks s @ concat (map spawns (carried s [e])) \<and>
    load (snd (call_entry e s)) < load s + entry_weight s e \<and>
    executed (snd (call_entry e s)) = executed s @ carried s [e] \<and>
    scheduled (snd (call_entry e s)) = scheduled s @ concat (map spawns (carried s [e]))"
proof (cases e)
  case (Plain t)
  then show ?thesis
    using assms run_task_heap[of "{}" s t] weight_spawns[of t]
    by (simp add: call_entry_def run_task_fields entry_task_def entry_weight_def)
next
  case (Holder h)
  then show ?thesis
    using assms call_heap[of h s] by (simp add: call_entry_def)
qed

lemma advance_heap:
  assumes "heap_ok {} s" "index s < length (queue s)"
  shows "pending s = queue s ! index s # pending (s\<lparr>index := Suc (index s)\<rparr>)"
    "heap_ok (set (holders_of [queue s ! index s])) (s\<lparr>index := Suc (index s)\<rparr>)"
    "pending_tasks s = carried s [queue s ! index s] @ pending_tasks (s\<lparr>index := Suc (index s)\<rparr>)"
    "load s = entry_weight s (queue s ! index s) + load (s\<lparr>index := Suc (index s)\<rparr>)"
proof -
  let ?s1 = "s\<lparr>index := Suc (index s)\<rparr>"
  show p: "pending s = queue s ! index s # pending ?s1"
    using assms(2) by (simp add: pending_def Cons_nth_drop_Suc)
  show "heap_ok (set (holders_of [queue s ! index s])) ?s1"
    using assms by (cases "queue s ! index s") (auto simp: heap_ok_def p)
  have "carried ?s1 (pending ?s1) = carried s (pending ?s1)"
    by (rule carried_eqI) simp
  then show "pending_tasks s = carried s [queue s ! index s] @ pending_tasks ?s1"
    by (simp add: pending_tasks_def p)
  have "map (entry_weight ?s1) (pending ?s1) = map (entry_weight s) (pending ?s1)"
    by (rule entry_weight_map_eqI) simp
  then have "load ?s1 = sum_list (map (entry_weight s) (pending ?s1))"
    unfolding load_def by (rule arg_cong)
  then show "load s = entry_weight s (queue s ! index s) + load ?s1"
    by (simp add: load_def p)
qed

lemma compaction_heap:
  assumes "index s \<le> length (queue s)"
  shows "fst (compaction s) = None" "pending (snd (compaction s)) = pending s"
    "heap_ok X (snd (compaction s)) = heap_ok X s"
    "pending_tasks (snd (compaction s)) = pending_tasks s"
    "load (snd (compaction s)) = load s"
    "list_all (entry_safe (snd (compaction s))) (pending (snd (compaction s))) =
     list_all (entry_safe s) (pending s)"
proof -
  show "fst (compaction s) = None" using assms by (simp add: compaction_eq)
  show p: "pending (snd (compaction s)) = pending s"
    using assms by (simp add: compaction_eq pending_def)
  have h: "holders (snd (compaction s)) = holders s" by (simp add: compaction_eq)
  show "heap_ok X (snd (compaction s)) = heap_ok X s"
    using assms unfolding heap_ok_def p by (simp add: compaction_eq)
  show "pending_tasks (snd (compaction s)) = pending_tasks s"
    unfolding pending_tasks_def p by (rule carried_eqI) (simp add: h)
  show "load (snd (compaction s)) = load s"
    unfolding load_def p
    by (rule arg_cong[where f = sum_list], rule entry_weight_map_eqI) (simp add: h)
  show "list_all (entry_safe (snd (compaction s))) (pending (snd (compaction s))) =
     list_all (entry_safe s) (pending s)"
    unfolding p by (rule entry_safe_all_eqI) (simp add: h)
qed

lemma compaction_same:
  "capacity (snd (compaction s)) = capacity s"
  "requestFlush (snd (compaction s)) = requestFlush s"
  "requestErrorThrow (snd (compaction s)) = requestErrorThrow s"
  "onerror (snd (compaction s)) = onerror s"
  "executed (snd (compaction s)) = executed s"
  "scheduled (snd (compaction s)) = scheduled s"
  "pendingErrors (snd (compaction s)) = pendingErrors s"
  "observed (snd (compaction s)) = observed s"
  "requested (snd (compaction s)) = requested s"
  "flushing (snd (compaction s)) = flushing s"
  "freeTasks (snd (compaction s)) = freeTasks s"
  "holders (snd (compaction s)) = holders s"
  "next_holder (snd (compaction s)) = next_holder s"
  by (simp_all add: compaction_eq)

lemma flush_body_cases:
  obtains (threw) e s2 where
      "call_entry (queue s ! index s) (s\<lparr>index := index s + 1\<rparr>) = (Some e, s2)"
      "flush_body s = (Some e, s2)"
  | (passed) s2 where
      "call_entry (queue s ! index s) (s\<lparr>index := index s + 1\<rparr>) = (None, s2)"
      "flush_body s = compaction s2"
proof -
  obtain thrown s2 where c: "call_entry (queue s ! index s) (s\<lparr>index := index s + 1\<rparr>) = (thrown, s2)"
    by force
  show ?thesis
  proof (cases thrown)
    case None
    with c show ?thesis by (intro passed[of s2]) (simp_all add: flush_body_def Let_def)
  next
    case (Some e)
    with c show ?thesis by (intro threw[of e s2]) (simp_all add: flush_body_def Let_def)
  qed
qed

lemma flush_body_heap:
  assumes "heap_ok {} s" "index s < length (queue s)"
  shows "heap_ok {} (snd (flush_body s)) \<and> load (snd (flush_body s)) < load s \<and>
    executed (snd (flush_body s)) = executed s @ carried s [queue s ! index s] \<and>
    carried s [queue s ! index s] @ pending_tasks (snd (flush_body s)) =
      pending_tasks s @ concat (map spawns (carried s [queue s ! index s])) \<and>
    scheduled (snd (flush_body s)) =
      scheduled s @ concat (map spawns (carried s [queue s ! index s]))"
proof -
  let ?s1 = "s\<lparr>index := Suc (index s)\<rparr>"
  let ?e = "queue s ! index s"
  note adv = advance_heap[OF assms]
  have c1: "carried ?s1 [?e] = carried s [?e]"
    by (simp add: entry_task_def split: entry.splits)
  have w1: "entry_weight ?s1 ?e = entry_weight s ?e"
    by (simp add: entry_weight_def entry_task_def split: entry.splits)
  note ce = call_entry_heap[OF adv(2), unfolded c1 w1]
  have fr: "frame ?s1 (snd (call_entry ?e ?s1))" by (rule call_entry_frame)
  show ?thesis
  proof (cases rule: flush_body_cases[of s])
    case (threw e s2)
    then show ?thesis using ce adv(3,4) by simp
  next
    case (passed s2)
    then have "index s2 \<le> length (queue s2)"
      using fr assms(2) by (auto simp: frame_def)
    from compaction_heap[OF this] passed ce adv(3,4) show ?thesis
      by (simp add: compaction_same)
  qed
qed

section \<open>\<open>flush\<close> returns\<close>

lemma flush_total_rule:
  assumes "heap_ok {} s" "I s"
    and pass: "\<And>s s'. heap_ok {} s \<Longrightarrow> I s \<Longrightarrow> index s < length (queue s) \<Longrightarrow>
      flush_body s = (None, s') \<Longrightarrow> I s'"
    and threw: "\<And>s e s'. heap_ok {} s \<Longrightarrow> I s \<Longrightarrow> index s < length (queue s) \<Longrightarrow>
      flush_body s = (Some e, s') \<Longrightarrow> Q (Some e) s'"
    and exit: "\<And>s. heap_ok {} s \<Longrightarrow> I s \<Longrightarrow> \<not> index s < length (queue s) \<Longrightarrow>
      Q None (flush_exit s)"
  shows "\<exists>r s'. flush s = Some (r, s') \<and> Q r s'"
  using assms(1,2)
proof (induction "load s" arbitrary: s rule: less_induct)
  case less
  show ?case
  proof (cases "index s < length (queue s)")
    case False
    then have "flush s = Some (None, flush_exit s)" by (subst flush.simps) simp
    then show ?thesis using exit[OF less.prems False] by blast
  next
    case True
    obtain r s1 where b: "flush_body s = (r, s1)" by force
    have h1: "heap_ok {} s1" and l1: "load s1 < load s"
      using flush_body_heap[OF less.prems(1) True] b by simp_all
    show ?thesis
    proof (cases r)
      case None
      have "I s1" using pass[OF less.prems True] b None by simp
      from less.hyps[OF l1 h1 this] obtain r' s' where "flush s1 = Some (r', s')" "Q r' s'"
        by blast
      moreover have "flush s = flush s1" using True b None by (subst flush.simps) simp
      ultimately show ?thesis by auto
    next
      case (Some e)
      have "Q (Some e) s1" using threw[OF less.prems True] b Some by simp
      moreover have "flush s = Some (Some e, s1)" using True b Some by (subst flush.simps) simp
      ultimately show ?thesis by auto
    qed
  qed
qed

lemma flush_exit_heap:
  assumes "heap_ok {} s" "\<not> index s < length (queue s)"
  shows "heap_ok {} (flush_exit s)" "pending s = []" "pending (flush_exit s) = []"
    "pending_tasks s = []" "pending_tasks (flush_exit s) = []"
  using assms by (simp_all add: heap_ok_def flush_exit_def pending_def pending_tasks_def)

lemma well_formed_flush_body:
  assumes "well_formed s" "index s < length (queue s)"
  shows "well_formed (snd (flush_body s))"
proof -
  have h: "heap_ok {} s" and l: "scheduled s = executed s @ pending_tasks s"
    using assms(1) by (simp_all add: well_formed_def)
  from flush_body_heap[OF h assms(2)] l show ?thesis
    by (simp add: well_formed_def)
qed

lemma flush_returns:
  assumes "well_formed s"
  shows "\<exists>r s'. flush s = Some (r, s') \<and> well_formed s'"
proof (rule flush_total_rule[where I = well_formed])
  show "heap_ok {} s" "well_formed s" using assms by (simp_all add: well_formed_def)
next
  fix s s' assume "well_formed s" "index s < length (queue s)" "flush_body s = (None, s')"
  then show "well_formed s'" using well_formed_flush_body[of s] by simp
next
  fix s e s' assume "well_formed s" "index s < length (queue s)" "flush_body s = (Some e, s')"
  then show "well_formed s'" using well_formed_flush_body[of s] by simp
next
  fix s assume "heap_ok {} s" "well_formed s" "\<not> index s < length (queue s)"
  then show "well_formed (flush_exit s)"
    using flush_exit_heap[of s] by (simp add: well_formed_def) (simp add: flush_exit_def)
qed

section \<open>A scheduler used through \<open>asap\<close>\<close>

lemma frame_config:
  assumes "frame s s'"
  shows "requestErrorThrow s' = requestErrorThrow s" "onerror s' = onerror s"
    "hook_quiet s' = hook_quiet s" "capacity s' = capacity s" "index s' = index s"
  using assms by (simp_all add: frame_def hook_quiet_def)

lemma catch_block_quiet:
  assumes "hook_quiet s" "requestErrorThrow s \<noteq> None"
  shows "fst (catch_block e s) = None"
  using assms by (auto simp: catch_block_def hook_quiet_def Let_def split: option.splits)

lemma catch_block_no_hook:
  assumes "onerror s = None" "requestErrorThrow s = Some rq"
  shows "catch_block e s =
    (None, s\<lparr>pendingErrors := pendingErrors s @ [e], requested := requested s @ [rq]\<rparr>)"
  using assms by (simp add: catch_block_def call_request_def Let_def)

lemma catch_block_entry_safe: "entry_safe (snd (catch_block e s)) = entry_safe s"
  by (rule ext) (simp add: entry_safe_def catch_block_same split: entry.splits)

lemma call_safe:
  assumes "heap_ok {h} s" "list_all (entry_safe s) (pending s)" "holders s h = Some t"
    "asap_only t" "requestErrorThrow s \<noteq> None" "hook_quiet s"
  shows "fst (call h s) = None"
    "list_all (entry_safe (snd (call h s))) (pending (snd (call h s)))"
proof -
  have tb: "try_block h s = run_task t s" using assms(3) by (simp add: try_block_def)
  let ?s1 = "snd (run_task t s)"
  have fr: "frame s ?s1" by (rule run_task_frame)
  have h1: "heap_ok {h} ?s1" by (rule run_task_heap(1)[OF assms(1)])
  have safe1: "list_all (entry_safe ?s1) (pending ?s1)"
    by (rule run_task_safe[OF assms(1,2,4)])
  have cfg: "requestErrorThrow ?s1 \<noteq> None" "hook_quiet ?s1"
    using frame_config[OF fr] assms(5,6) by simp_all
  show "fst (call h s) = None"
  proof (cases rule: call_cases[of h s])
    case (returned s1)
    then show ?thesis by simp
  next
    case (caught e s1)
    then have "s1 = ?s1" using tb by simp
    then show ?thesis using caught catch_block_quiet[OF cfg(2,1)] by simp
  qed
  show "list_all (entry_safe (snd (call h s))) (pending (snd (call h s)))"
  proof (cases rule: call_cases[of h s])
    case (returned s1)
    then show ?thesis using tb safe1 h1 finally_block_heap(5)[of h s1] by simp
  next
    case (caught e s1)
    then have "s1 = ?s1" using tb by simp
    then show ?thesis
      using caught safe1 h1 finally_block_heap(5)[of h "snd (catch_block e s1)"]
      by (simp add: catch_block_heap(1,2) catch_block_entry_safe)
  qed
qed

lemma safe_state_flush_body:
  assumes "safe_state s" "index s < length (queue s)"
  shows "fst (flush_body s) = None" "safe_state (snd (flush_body s))"
proof -
  let ?s1 = "s\<lparr>index := Suc (index s)\<rparr>"
  let ?e = "queue s ! index s"
  have wf: "well_formed s" and h: "heap_ok {} s" and safe: "list_all (entry_safe s) (pending s)"
    and cfg: "requestErrorThrow s \<noteq> None" "hook_quiet s"
    using assms(1) by (simp_all add: safe_state_def well_formed_def)
  note adv = advance_heap[OF h assms(2)]
  have "entry_safe s ?e" using safe adv(1) by simp
  then obtain hd t where e: "?e = Holder hd" and b: "holders s hd = Some t" and ao: "asap_only t"
    by (auto simp: entry_safe_def split: entry.splits option.splits)
  have h1: "heap_ok {hd} ?s1" using adv(2) e by simp
  have "list_all (entry_safe ?s1) (pending ?s1) = list_all (entry_safe s) (pending ?s1)"
    by (rule entry_safe_all_eqI) simp
  then have safe1: "list_all (entry_safe ?s1) (pending ?s1)" using safe adv(1) by simp
  have cfg1: "requestErrorThrow ?s1 \<noteq> None" "hook_quiet ?s1"
    using cfg by (simp_all add: hook_quiet_def)
  have b1: "holders ?s1 hd = Some t" using b by simp
  note cs = call_safe[OF h1 safe1 b1 ao cfg1]
  have fr: "frame ?s1 (snd (call hd ?s1))" by (rule call_frame)
  have ce: "call_entry ?e ?s1 = call hd ?s1" using e by (simp add: call_entry_def)
  have fb: "flush_body s = compaction (snd (call hd ?s1))"
    using cs(1) ce by (cases rule: flush_body_cases[of s]) simp_all
  have le: "index (snd (call hd ?s1)) \<le> length (queue (snd (call hd ?s1)))"
    using fr assms(2) by (auto simp: frame_def)
  show "fst (flush_body s) = None" using fb compaction_heap(1)[OF le] by simp
  have "well_formed (snd (flush_body s))" by (rule well_formed_flush_body[OF wf assms(2)])
  moreover have "list_all (entry_safe (snd (flush_body s))) (pending (snd (flush_body s)))"
    using fb compaction_heap(6)[OF le] cs(2) by simp
  moreover have "requestErrorThrow (snd (flush_body s)) \<noteq> None" "hook_quiet (snd (flush_body s))"
    using fb frame_config[OF fr] cfg1 by (simp_all add: compaction_same hook_quiet_def)
  ultimately show "safe_state (snd (flush_body s))" by (simp add: safe_state_def)
qed

lemma safe_state_flush:
  assumes "safe_state s"
  shows "\<exists>s'. flush s = Some (None, s') \<and> safe_state s' \<and> executed s' = scheduled s' \<and>
    queue s' = [] \<and> index s' = 0 \<and> (\<exists>more. scheduled s' = scheduled s @ more)"
proof -
  define I where "I = (\<lambda>u. safe_state u \<and> (\<exists>more. scheduled u = scheduled s @ more))"
  define Q where "Q = (\<lambda>(r::err option) u. r = None \<and> safe_state u \<and> executed u = scheduled u \<and> queue u = [] \<and>
    index u = 0 \<and> (\<exists>more. scheduled u = scheduled s @ more))"
  have "\<exists>r s'. flush s = Some (r, s') \<and> Q r s'"
  proof (rule flush_total_rule[where I = I])
    show "heap_ok {} s" using assms by (simp add: safe_state_def well_formed_def)
    show "I s" using assms by (simp add: I_def)
  next
    fix u u' assume u: "heap_ok {} u" "I u" "index u < length (queue u)" "flush_body u = (None, u')"
    then have "safe_state u'" using safe_state_flush_body(2)[of u] by (simp add: I_def)
    moreover have "\<exists>more. scheduled u' = scheduled u @ more"
      using flush_body_heap[OF u(1,3)] u(4) by simp
    ultimately show "I u'" using u(2) by (auto simp: I_def)
  next
    fix u e u' assume "heap_ok {} u" "I u" "index u < length (queue u)" "flush_body u = (Some e, u')"
    then show "Q (Some e) u'" using safe_state_flush_body(1)[of u] by (simp add: I_def)
  next
    fix u assume u: "heap_ok {} u" "I u" "\<not> index u < length (queue u)"
    note ex = flush_exit_heap[OF u(1,3)]
    have "safe_state (flush_exit u)"
      using u(2) ex by (simp add: I_def safe_state_def well_formed_def)
        (simp add: flush_exit_def hook_quiet_def)
    moreover have "executed (flush_exit u) = scheduled (flush_exit u)"
      using u(2) ex by (simp add: I_def safe_state_def well_formed_def flush_exit_def)
    ultimately show "Q None (flush_exit u)"
      using u(2) by (simp add: Q_def I_def) (simp add: flush_exit_def)
  qed
  then show ?thesis by (auto simp: Q_def)
qed

lemma Asap_new_eq:
  "Asap_constructor_bundled obs = Inr (Asap_new obs)"
  "Asap_new obs = (Raw_constructor obs)\<lparr>requestErrorThrow := Some (RequestCall Timer ThrowFirstError)\<rparr>"
  by (simp_all add: Asap_new_def Asap_constructor_bundled_def Asap_constructor_on_def
      get_makeRequestCallFromTimer_def makeRequestCallFromTimer_def Raw_constructor_def)

lemma safe_state_Asap_new: "safe_state (Asap_new obs)"
  by (simp add: Asap_new_eq(2) Raw_constructor_def safe_state_def well_formed_def heap_ok_def
      pending_def pending_tasks_def hook_quiet_def)

lemma safe_state_hook:
  assumes "safe_state s" "\<forall>e. hook e = None"
  shows "safe_state (s\<lparr>onerror := Some hook\<rparr>)"
proof -
  let ?s = "s\<lparr>onerror := Some hook\<rparr>"
  have "heap_ok {} ?s = heap_ok {} s" by (rule heap_cong) simp_all
  moreover have "pending_tasks ?s = pending_tasks s" by (rule heap_cong) simp_all
  moreover have "list_all (entry_safe ?s) (pending ?s) = list_all (entry_safe s) (pending s)"
    by (rule heap_cong) simp_all
  ultimately show ?thesis
    using assms by (simp add: safe_state_def well_formed_def hook_quiet_def)
qed

lemma safe_state_asap:
  assumes "safe_state s" "asap_only t"
  shows "safe_state (asap t s)"
proof -
  have h: "heap_ok {} s" and l: "scheduled s = executed s @ pending_tasks s"
    and safe: "list_all (entry_safe s) (pending s)"
    using assms(1) by (simp_all add: safe_state_def well_formed_def)
  show ?thesis
    using assms(1) heap_ok_asap[OF h] pending_tasks_asap[OF h] safe_asap[OF h safe assms(2)] l
    by (simp add: safe_state_def well_formed_def asap_fields hook_quiet_def)
qed

lemma safe_state_fold_asap:
  assumes "safe_state s" "\<forall>t\<in>set ts. asap_only t"
  shows "safe_state (fold asap ts s)"
  using assms by (induction ts arbitrary: s) (simp_all add: safe_state_asap)

lemma fold_asap_scheduled: "scheduled (fold asap ts s) = scheduled s @ ts"
  by (induction ts arbitrary: s) (simp_all add: asap_fields)

lemma fold_asap_executed: "executed (fold asap ts s) = executed s"
  by (induction ts arbitrary: s) (simp_all add: asap_fields)

lemma safe_state_ledger: "safe_state s \<Longrightarrow> scheduled s = executed s @ pending_tasks s"
  by (simp add: safe_state_def well_formed_def)

lemma fold_asap_requested:
  "queue s \<noteq> [] \<Longrightarrow> requested (fold asap ts s) = requested s"
  by (induction ts arbitrary: s) (simp_all add: asap_fields asap_requested)

lemma fold_asap_first_request:
  assumes "queue s = []" "ts \<noteq> []"
  shows "requested (fold asap ts s) = requested s @ [requestFlush s]"
proof -
  obtain t ts' where ts: "ts = t # ts'" using assms(2) by (cases ts) auto
  have "queue (asap t s) \<noteq> []" by (simp add: asap_fields)
  from fold_asap_requested[OF this, of ts'] show ?thesis
    using assms(1) by (simp add: ts asap_requested)
qed

lemmas model_defs = flush_body_def flush_exit_def call_entry_def call_def try_block_def
  catch_block_def finally_block_def run_task_def schedule_child_def asap_def rawAsap_def
  getRawTask_def entry_task_def call_request_def compaction_def Raw_constructor_def
  makeRequestCallFromTimer_def makeRequestCallFromMutationObserver_def Let_def

lemma fold_asap_requested_exact:
  "requested (fold asap ts s) =
     requested s @ (if queue s = [] \<and> ts \<noteq> [] then [requestFlush s] else [])"
proof (cases "queue s = []")
  case False
  then show ?thesis by (simp add: fold_asap_requested)
next
  case True
  show ?thesis
  proof (cases "ts = []")
    case True
    then show ?thesis by simp
  next
    case False
    with \<open>queue s = []\<close> show ?thesis by (simp add: fold_asap_first_request)
  qed
qed

text \<open>
  Claim C1. The constructor that returns leaves a scheduler used through \<open>asap\<close>, with an
  empty queue and no hook. Take such a scheduler whose test hook \<open>onerror\<close> is unset or
  returns normally, and schedule any tasks \<open>ts\<close> through \<open>asap\<close>, whichever of them throw.
  This runs no task, and it asks the host for a flush exactly when the queue was empty and
  \<open>ts\<close> is not, once. The flush then returns normally with the queue empty and the index
  0, so that the next batch asks for a flush again, and the tasks whose bodies have run are
  then exactly the tasks handed to the queue, in the order in which they were handed in,
  each once: those that had run before, those that were awaiting invocation, the tasks
  \<open>ts\<close> in their order, and after them the tasks that were scheduled while the flush ran.
  None is left awaiting invocation.
\<close>

theorem asap_runs_each_task_once_in_order:
  assumes "safe_state s" and "hook_quiet s" and "\<forall>t\<in>set ts. asap_only t"
  shows "safe_state (Asap_new has_observer) \<and> queue (Asap_new has_observer) = [] \<and>
         scheduled (fold asap ts s) = executed s @ pending_tasks s @ ts \<and>
         executed (fold asap ts s) = executed s \<and>
         requested (fold asap ts s) =
           requested s @ (if queue s = [] \<and> ts \<noteq> [] then [requestFlush s] else []) \<and>
         (\<exists>s' more. flush (fold asap ts s) = Some (None, s') \<and>
            scheduled s' = executed s @ pending_tasks s @ ts @ more \<and>
            executed s' = scheduled s' \<and> pending_tasks s' = [] \<and>
            queue s' = [] \<and> index s' = 0 \<and> safe_state s' \<and> hook_quiet s' \<and>
            (\<forall>later. later \<noteq> [] \<longrightarrow>
               requested (fold asap later s') = requested s' @ [requestFlush s']))"
proof -
  have st: "safe_state (fold asap ts s)" by (rule safe_state_fold_asap[OF assms(1,3)])
  have sch: "scheduled (fold asap ts s) = executed s @ pending_tasks s @ ts"
    using safe_state_ledger[OF assms(1)] by (simp add: fold_asap_scheduled)
  from safe_state_flush[OF st] obtain s' more where s':
    "flush (fold asap ts s) = Some (None, s')" "safe_state s'" "executed s' = scheduled s'"
    "scheduled s' = scheduled (fold asap ts s) @ more" "queue s' = []" "index s' = 0" by blast
  have p: "pending_tasks s' = []" using s'(5) by (simp add: pending_tasks_def pending_def)
  have h: "hook_quiet s'" using s'(2) by (simp add: safe_state_def)
  have l: "\<forall>later. later \<noteq> [] \<longrightarrow>
      requested (fold asap later s') = requested s' @ [requestFlush s']"
    using s'(5) by (simp add: fold_asap_requested_exact)
  have new: "safe_state (Asap_new has_observer)" "queue (Asap_new has_observer) = []"
  proof -
    show "safe_state (Asap_new has_observer)" by (rule safe_state_Asap_new)
    show "queue (Asap_new has_observer) = []" by (simp add: Asap_new_eq(2) Raw_constructor_def)
  qed
  have sch': "scheduled s' = executed s @ pending_tasks s @ ts @ more"
    using s'(4) sch by simp
  have ex: "\<exists>s' more. flush (fold asap ts s) = Some (None, s') \<and>
            scheduled s' = executed s @ pending_tasks s @ ts @ more \<and>
            executed s' = scheduled s' \<and> pending_tasks s' = [] \<and>
            queue s' = [] \<and> index s' = 0 \<and> safe_state s' \<and> hook_quiet s' \<and>
            (\<forall>later. later \<noteq> [] \<longrightarrow>
               requested (fold asap later s') = requested s' @ [requestFlush s'])"
    using s'(1,2,3,5,6) sch' p h l by blast
  from ex sch new fold_asap_executed[of ts s] fold_asap_requested_exact[of ts s]
  show ?thesis by simp
qed

theorem asap_runs_each_task_once_in_order_witness:
  "\<exists>s'. flush (fold asap
       [Task 5 ViaAsap [] None,
        Task 6 ViaAsap [Task 8 ViaAsap [] None] (Some (Thrown 7)),
        Task 7 ViaAsap [] (Some (Thrown 8))] (Asap_new True)) = Some (None, s') \<and>
     map label (executed s') = [5, 6, 7, 8] \<and> executed s' = scheduled s' \<and> queue s' = [] \<and>
     requested (fold asap
       [Task 5 ViaAsap [] None,
        Task 6 ViaAsap [Task 8 ViaAsap [] None] (Some (Thrown 7)),
        Task 7 ViaAsap [] (Some (Thrown 8))] (Asap_new True)) = [RequestCall Observation Flush] \<and>
     requested (fold asap [Task 9 ViaAsap [] None] s') =
       requested s' @ [RequestCall Observation Flush]"
proof -
  let ?ts = "[Task 5 ViaAsap [] None,
        Task 6 ViaAsap [Task 8 ViaAsap [] None] (Some (Thrown 7)),
        Task 7 ViaAsap [] (Some (Thrown 8))]"
  have s: "safe_state (Asap_new True)"
    by (simp add: Asap_new_eq(2) Raw_constructor_def safe_state_def well_formed_def heap_ok_def
        pending_def pending_tasks_def hook_quiet_def)
  have h: "hook_quiet (Asap_new True)"
    by (simp add: Asap_new_eq(2) Raw_constructor_def hook_quiet_def)
  have t: "\<forall>t\<in>set ?ts. asap_only t" by simp
  from asap_runs_each_task_once_in_order[OF s h t, of True]
  obtain s' more where f: "flush (fold asap ?ts (Asap_new True)) = Some (None, s')"
    and e: "executed s' = scheduled s'" and q: "queue s' = []"
    and r: "requested (fold asap ?ts (Asap_new True)) = requested (Asap_new True) @
      (if queue (Asap_new True) = [] \<and> ?ts \<noteq> [] then [requestFlush (Asap_new True)] else [])"
    and l: "\<forall>later. later \<noteq> [] \<longrightarrow>
      requested (fold asap later s') = requested s' @ [requestFlush s']"
    by blast
  have "map_option (\<lambda>(r, u). (map label (executed u), requestFlush u))
        (flush (fold asap ?ts (Asap_new True))) =
      Some ([5, 6, 7, 8], RequestCall Observation Flush)"
    by (simp add: flush.simps model_defs Asap_new_eq(2))
  then have v: "map label (executed s') = [5, 6, 7, 8]"
    "requestFlush s' = RequestCall Observation Flush"
    using f by simp_all
  have "requested (fold asap ?ts (Asap_new True)) = [RequestCall Observation Flush]"
    unfolding r by (simp add: Asap_new_eq(2) model_defs)
  moreover have "requested (fold asap [Task 9 ViaAsap [] None] s') =
      requested s' @ [RequestCall Observation Flush]"
    using l[rule_format, of "[Task 9 ViaAsap [] None]"] v(2) by simp
  ultimately show ?thesis using f e q v(1) by simp
qed

text \<open>
  A hook that throws: with \<open>onerror\<close> set to a function that throws what it is given, the
  flush of two tasks, the first of which throws, is left by the error of the hook after the
  first task; the second task stays in the queue, and scheduling a further task asks for no
  new flush, the queue not being empty.
\<close>

theorem throwing_hook_leaves_tasks_pending:
  "map_option fst (flush (fold asap
       [Task 7 ViaAsap [] (Some (Thrown 5)), Task 8 ViaAsap [] None]
       ((Asap_new True)\<lparr>onerror := Some Some\<rparr>))) = Some (Some (Thrown 5)) \<and>
   map label (executed (snd (the (flush (fold asap
       [Task 7 ViaAsap [] (Some (Thrown 5)), Task 8 ViaAsap [] None]
       ((Asap_new True)\<lparr>onerror := Some Some\<rparr>)))))) = [7] \<and>
   map label (pending_tasks (snd (the (flush (fold asap
       [Task 7 ViaAsap [] (Some (Thrown 5)), Task 8 ViaAsap [] None]
       ((Asap_new True)\<lparr>onerror := Some Some\<rparr>)))))) = [8] \<and>
   requested (asap (Task 9 ViaAsap [] None) (snd (the (flush (fold asap
       [Task 7 ViaAsap [] (Some (Thrown 5)), Task 8 ViaAsap [] None]
       ((Asap_new True)\<lparr>onerror := Some Some\<rparr>)))))) = [RequestCall Observation Flush]"
  by (simp add: flush.simps model_defs Asap_new_eq(2) pending_tasks_def pending_def)

section \<open>Deferred errors\<close>

lemma thrown_by_append: "thrown_by (xs @ ys) = thrown_by xs @ thrown_by ys"
  by (induction xs) simp_all

lemma throwFirstError_eq:
  "throwFirstError s =
     (if pendingErrors s = [] then (None, s)
      else (Some (hd (pendingErrors s)), s\<lparr>pendingErrors := tl (pendingErrors s)\<rparr>))"
  by (simp add: throwFirstError_def split: list.splits)

lemma timer_turns_eq:
  "timer_turns n s =
     (take n (pendingErrors s), s\<lparr>pendingErrors := drop n (pendingErrors s)\<rparr>)"
proof (induction n arbitrary: s)
  case 0
  show ?case by simp
next
  case (Suc n)
  show ?case
  proof (cases "pendingErrors s")
    case Nil
    then show ?thesis using Suc.IH[of s] by (simp add: throwFirstError_def)
  next
    case (Cons e es)
    then show ?thesis
      using Suc.IH[of "s\<lparr>pendingErrors := es\<rparr>"] by (simp add: throwFirstError_def)
  qed
qed

lemma call_errors:
  assumes "holders s h = Some t" "onerror s = None" "requestErrorThrow s = Some rq"
    "queue s \<noteq> []"
  shows "pendingErrors (snd (call h s)) = pendingErrors s @ thrown_by [t]"
    "requested (snd (call h s)) = requested s @ map (\<lambda>_. rq) (thrown_by [t])"
    "observed (snd (call h s)) = observed s"
proof -
  have tb: "try_block h s = (throws t, snd (run_task t s))"
    using assms(1) run_task_fields(1)[of t s] by (simp add: try_block_def prod_eq_iff)
  let ?s1 = "snd (run_task t s)"
  have cfg: "onerror ?s1 = None" "requestErrorThrow ?s1 = Some rq"
    using frame_config[OF run_task_frame, of t s] assms(2,3) by simp_all
  note rq = run_task_requested[OF assms(4), of t] and rf = run_task_fields[of t s]
  have c: "call h s =
      (case throws t of None \<Rightarrow> (None, finally_block h ?s1)
       | Some e \<Rightarrow> (None, finally_block h
           (?s1\<lparr>pendingErrors := pendingErrors ?s1 @ [e], requested := requested ?s1 @ [rq]\<rparr>)))"
    by (simp add: call_def tb catch_block_no_hook[OF cfg] split: option.splits)
  show "pendingErrors (snd (call h s)) = pendingErrors s @ thrown_by [t]"
    using rf rq by (simp add: c finally_block_same split: option.splits)
  show "requested (snd (call h s)) = requested s @ map (\<lambda>_. rq) (thrown_by [t])"
    using rf rq by (simp add: c finally_block_same split: option.splits)
  show "observed (snd (call h s)) = observed s"
    using rf rq by (simp add: c finally_block_same split: option.splits)
qed

lemma flush_body_errors:
  assumes "safe_state s" "index s < length (queue s)" "onerror s = None"
    "requestErrorThrow s = Some rq"
  shows "\<exists>ts. executed (snd (flush_body s)) = executed s @ ts \<and>
    pendingErrors (snd (flush_body s)) = pendingErrors s @ thrown_by ts \<and>
    requested (snd (flush_body s)) = requested s @ map (\<lambda>_. rq) (thrown_by ts) \<and>
    observed (snd (flush_body s)) = observed s"
proof -
  let ?s1 = "s\<lparr>index := Suc (index s)\<rparr>"
  let ?e = "queue s ! index s"
  have h: "heap_ok {} s" and safe: "list_all (entry_safe s) (pending s)"
    using assms(1) by (simp_all add: safe_state_def well_formed_def)
  note adv = advance_heap[OF h assms(2)]
  have "entry_safe s ?e" using safe adv(1) by simp
  then obtain hd t where e: "?e = Holder hd" and b: "holders s hd = Some t"
    by (auto simp: entry_safe_def split: entry.splits option.splits)
  have ne: "queue ?s1 \<noteq> []" using assms(2) by auto
  have b1: "holders ?s1 hd = Some t" "onerror ?s1 = None" "requestErrorThrow ?s1 = Some rq"
    using b assms(3,4) by simp_all
  note ce = call_errors[OF b1 ne]
  have h1: "heap_ok {hd} ?s1" using adv(2) e by simp
  have ex: "executed (snd (call hd ?s1)) = executed s @ [t]"
    using call_heap[OF h1] b by (simp add: entry_task_def)
  have fst_none: "fst (flush_body s) = None" by (rule safe_state_flush_body(1)[OF assms(1,2)])
  have fb: "flush_body s = compaction (snd (call hd ?s1))"
    using fst_none e by (cases rule: flush_body_cases[of s]) (simp_all add: call_entry_def)
  show ?thesis
    using ce ex by (intro exI[of _ "[t]"]) (simp add: fb compaction_same)
qed

lemma flush_body_config:
  "onerror (snd (flush_body s)) = onerror s"
  "requestErrorThrow (snd (flush_body s)) = requestErrorThrow s"
  "capacity (snd (flush_body s)) = capacity s"
  "requestFlush (snd (flush_body s)) = requestFlush s"
proof -
  let ?s1 = "s\<lparr>index := index s + 1\<rparr>"
  have fr: "frame ?s1 (snd (call_entry (queue s ! index s) ?s1))" by (rule call_entry_frame)
  have "onerror (snd (flush_body s)) = onerror s \<and>
    requestErrorThrow (snd (flush_body s)) = requestErrorThrow s \<and>
    capacity (snd (flush_body s)) = capacity s \<and>
    requestFlush (snd (flush_body s)) = requestFlush s"
  proof (cases rule: flush_body_cases[of s])
    case (threw e s2)
    then show ?thesis using fr by (simp add: frame_def)
  next
    case (passed s2)
    then show ?thesis using fr by (simp add: frame_def compaction_same)
  qed
  then show "onerror (snd (flush_body s)) = onerror s"
    "requestErrorThrow (snd (flush_body s)) = requestErrorThrow s"
    "capacity (snd (flush_body s)) = capacity s"
    "requestFlush (snd (flush_body s)) = requestFlush s"
    by simp_all
qed

lemma safe_state_flush_errors:
  assumes "safe_state s" "onerror s = None" "requestErrorThrow s = Some rq"
  shows "\<exists>s' ts. flush s = Some (None, s') \<and> executed s' = executed s @ ts \<and>
    pendingErrors s' = pendingErrors s @ thrown_by ts \<and>
    requested s' = requested s @ map (\<lambda>_. rq) (thrown_by ts) \<and>
    observed s' = observed s"
proof -
  define R where "R = (\<lambda>u::state. \<exists>ts. executed u = executed s @ ts \<and>
    pendingErrors u = pendingErrors s @ thrown_by ts \<and>
    requested u = requested s @ map (\<lambda>_. rq) (thrown_by ts) \<and> observed u = observed s)"
  define I where "I = (\<lambda>u. safe_state u \<and> onerror u = None \<and> requestErrorThrow u = Some rq \<and> R u)"
  define Q where "Q = (\<lambda>(r::err option) u. r = None \<and> R u)"
  have "\<exists>r s'. flush s = Some (r, s') \<and> Q r s'"
  proof (rule flush_total_rule[where I = I])
    show "heap_ok {} s" using assms by (simp add: safe_state_def well_formed_def)
    have "R s" unfolding R_def by (rule exI[of _ "[]"]) simp
    then show "I s" using assms by (simp add: I_def)
  next
    fix u u' assume u: "heap_ok {} u" "I u" "index u < length (queue u)" "flush_body u = (None, u')"
    have su: "safe_state u" "onerror u = None" "requestErrorThrow u = Some rq" and ru: "R u"
      using u(2) by (simp_all add: I_def)
    have u': "u' = snd (flush_body u)" using u(4) by simp
    have "safe_state u'" using safe_state_flush_body(2)[OF su(1) u(3)] u' by simp
    moreover obtain ts where ts: "executed u' = executed u @ ts"
      "pendingErrors u' = pendingErrors u @ thrown_by ts"
      "requested u' = requested u @ map (\<lambda>_. rq) (thrown_by ts)" "observed u' = observed u"
      using flush_body_errors[OF su(1) u(3) su(2,3)] unfolding u' by blast
    obtain ts0 where ts0: "executed u = executed s @ ts0"
      "pendingErrors u = pendingErrors s @ thrown_by ts0"
      "requested u = requested s @ map (\<lambda>_. rq) (thrown_by ts0)" "observed u = observed s"
      using ru unfolding R_def by blast
    have "R u'" unfolding R_def
      by (rule exI[of _ "ts0 @ ts"]) (simp add: ts ts0 thrown_by_append)
    moreover have "onerror u' = None" "requestErrorThrow u' = Some rq"
      using su(2,3) by (simp_all add: u' flush_body_config)
    ultimately show "I u'" by (simp add: I_def)
  next
    fix u e u' assume "heap_ok {} u" "I u" "index u < length (queue u)" "flush_body u = (Some e, u')"
    then show "Q (Some e) u'" using safe_state_flush_body(1)[of u] by (simp add: I_def)
  next
    fix u assume u: "heap_ok {} u" "I u" "\<not> index u < length (queue u)"
    then have "R u" by (simp add: I_def)
    then have "R (flush_exit u)" unfolding R_def by (simp add: flush_exit_def)
    then show "Q None (flush_exit u)" by (simp add: Q_def)
  qed
  then obtain r s' where "flush s = Some (r, s')" "r = None" "R s'" unfolding Q_def by blast
  then show ?thesis unfolding R_def by blast
qed

text \<open>
  Claim C2. In a scheduler used through \<open>asap\<close> with no hook set, a flush returns normally
  and appends to \<open>pendingErrors\<close> the errors of the tasks it ran that threw, in the order in
  which the tasks were scheduled and ran, and asks for one timer turn per error. Every call
  of \<open>throwFirstError\<close> on pending errors removes and throws the oldest one, so the timer
  turns throw the errors first in, first out, each once: after \<open>n\<close> turns the first \<open>n\<close>
  errors have been thrown and the others are still pending.
\<close>

theorem errors_rethrown_first_in_first_out:
  assumes "safe_state s" and "onerror s = None"
  shows "\<exists>s' ts rq. flush s = Some (None, s') \<and>
           executed s' = executed s @ ts \<and> scheduled s' = executed s' \<and>
           pendingErrors s' = pendingErrors s @ thrown_by ts \<and>
           requestErrorThrow s = Some rq \<and>
           requested s' = requested s @ replicate (length (thrown_by ts)) rq \<and>
           (\<forall>n. timer_turns n s' =
              (take n (pendingErrors s'), s'\<lparr>pendingErrors := drop n (pendingErrors s')\<rparr>)) \<and>
           (\<forall>u e es. pendingErrors u = e # es \<longrightarrow>
              throwFirstError u = (Some e, u\<lparr>pendingErrors := es\<rparr>))"
proof -
  obtain rq where rq: "requestErrorThrow s = Some rq"
    using assms(1) by (auto simp: safe_state_def)
  obtain s' ts where f: "flush s = Some (None, s')" and e: "executed s' = executed s @ ts"
    and p: "pendingErrors s' = pendingErrors s @ thrown_by ts"
    and r: "requested s' = requested s @ map (\<lambda>_. rq) (thrown_by ts)"
    using safe_state_flush_errors[OF assms rq] by blast
  have "scheduled s' = executed s'" using safe_state_flush[OF assms(1)] f by auto
  moreover have "throwFirstError u = (Some e, u\<lparr>pendingErrors := es\<rparr>)"
    if "pendingErrors u = e # es" for u e es
    using that by (simp add: throwFirstError_def)
  ultimately show ?thesis
    using f e p r rq by (simp add: timer_turns_eq map_replicate_const)
qed

theorem errors_rethrown_first_in_first_out_witness:
  "\<exists>s'. flush (fold asap [Task 1 ViaAsap [] (Some (Thrown 2)), Task 2 ViaAsap [] None,
        Task 3 ViaAsap [] (Some (Thrown 3))] (Asap_new False)) = Some (None, s') \<and>
     pendingErrors s' = [Thrown 2, Thrown 3] \<and>
     requested s' = [RequestCall Timer Flush, RequestCall Timer ThrowFirstError,
        RequestCall Timer ThrowFirstError] \<and>
     fst (timer_turns 1 s') = [Thrown 2] \<and> fst (timer_turns 2 s') = [Thrown 2, Thrown 3] \<and>
     fst (throwFirstError s') = Some (Thrown 2) \<and>
     fst (throwFirstError (snd (throwFirstError s'))) = Some (Thrown 3) \<and>
     fst (throwFirstError (snd (throwFirstError (snd (throwFirstError s'))))) = None"
proof -
  let ?ts = "[Task 1 ViaAsap [] (Some (Thrown 2)), Task 2 ViaAsap [] None,
        Task 3 ViaAsap [] (Some (Thrown 3))]"
  let ?s = "fold asap ?ts (Asap_new False)"
  have s: "safe_state ?s"
    by (simp add: Asap_new_eq(2) Raw_constructor_def safe_state_def well_formed_def heap_ok_def
        pending_def pending_tasks_def hook_quiet_def asap_def rawAsap_def getRawTask_def
        entry_task_def entry_safe_def call_request_def Let_def)
  have h: "onerror ?s = None"
    by (simp add: Asap_new_eq(2) Raw_constructor_def asap_fields)
  from errors_rethrown_first_in_first_out[OF s h]
  obtain s' ts rq where f: "flush ?s = Some (None, s')"
    and t: "\<forall>n. timer_turns n s' =
       (take n (pendingErrors s'), s'\<lparr>pendingErrors := drop n (pendingErrors s')\<rparr>)"
    and u: "\<forall>u e es. pendingErrors u = e # es \<longrightarrow>
       throwFirstError u = (Some e, u\<lparr>pendingErrors := es\<rparr>)"
    by blast
  have ev: "map_option (\<lambda>(r, u). (pendingErrors u, requested u)) (flush ?s) =
      Some ([Thrown 2, Thrown 3], [RequestCall Timer Flush, RequestCall Timer ThrowFirstError,
        RequestCall Timer ThrowFirstError])"
    by (simp add: flush.simps flush_body_def flush_exit_def call_entry_def call_def try_block_def
        catch_block_def finally_block_def run_task_def schedule_child_def asap_def rawAsap_def
        getRawTask_def entry_task_def call_request_def compaction_def Asap_new_eq(2)
        Raw_constructor_def makeRequestCallFromTimer_def Let_def)
  from ev f have p: "pendingErrors s' = [Thrown 2, Thrown 3]"
    and r: "requested s' = [RequestCall Timer Flush, RequestCall Timer ThrowFirstError,
        RequestCall Timer ThrowFirstError]" by simp_all
  have t1: "throwFirstError s' = (Some (Thrown 2), s'\<lparr>pendingErrors := [Thrown 3]\<rparr>)"
    using u p by simp
  have t2: "throwFirstError (s'\<lparr>pendingErrors := [Thrown 3]\<rparr>) =
      (Some (Thrown 3), s'\<lparr>pendingErrors := []\<rparr>)"
    using u[rule_format, of "s'\<lparr>pendingErrors := [Thrown 3]\<rparr>" "Thrown 3" "[]"] by simp
  have t3: "fst (throwFirstError (s'\<lparr>pendingErrors := []\<rparr>)) = None"
    by (simp add: throwFirstError_def)
  show ?thesis
    using f p r t t1 t2 t3 by (simp add: numeral_2_eq_2)
qed

section \<open>Claims about single operations\<close>





lemma flush_partial_rule:
  assumes "flush s = Some (r, s')" "I s"
    and pass: "\<And>s s'. I s \<Longrightarrow> index s < length (queue s) \<Longrightarrow> flush_body s = (None, s') \<Longrightarrow> I s'"
    and threw: "\<And>s e s'. I s \<Longrightarrow> index s < length (queue s) \<Longrightarrow>
      flush_body s = (Some e, s') \<Longrightarrow> Q (Some e) s'"
    and exit: "\<And>s. I s \<Longrightarrow> \<not> index s < length (queue s) \<Longrightarrow> Q None (flush_exit s)"
  shows "Q r s'"
proof -
  have "I x0 \<longrightarrow> Q (fst y0) (snd y0)" if h: "flush x0 = Some y0" for x0 y0
  proof (rule flush.raw_induct[where P = "\<lambda>x y. I x \<longrightarrow> Q (fst y) (snd y)", OF _ h])
    fix f x y
    assume IH: "\<And>x y. f x = Some y \<Longrightarrow> I x \<longrightarrow> Q (fst y) (snd y)"
      and eq: "(if index x < length (queue x)
                then case flush_body x of (None, s') \<Rightarrow> f s' | (Some e, s') \<Rightarrow> Some (Some e, s')
                else Some (None, flush_exit x)) = Some y"
    show "I x \<longrightarrow> Q (fst y) (snd y)"
    proof (cases "index x < length (queue x)")
      case False
      then have "y = (None, flush_exit x)" using eq by simp
      then show ?thesis using exit[of x] False by simp
    next
      case True
      obtain r1 x1 where b: "flush_body x = (r1, x1)" by force
      show ?thesis
      proof (cases r1)
        case None
        then have "f x1 = Some y" using eq True b by simp
        then have "I x1 \<longrightarrow> Q (fst y) (snd y)" by (rule IH)
        then show ?thesis using pass[of x x1] True b None by auto
      next
        case (Some e)
        then have "y = (Some e, x1)" using eq True b by simp
        then show ?thesis using True b Some threw[of x e x1] by simp
      qed
    qed
  qed
  from this[OF assms(1)] assms(2) show ?thesis by simp
qed

text \<open>
  Claim C7. A call of \<open>flush\<close> in a well-formed state returns or throws; when it returns
  (no invocation has thrown), the queue is empty, the index is 0 and the flushing flag is
  false.
\<close>

theorem flush_returns_with_queue_reset:
  "(well_formed s \<longrightarrow> (\<exists>r u. flush s = Some (r, u))) \<and>
   (\<forall>u. flush s = Some (None, u) \<longrightarrow> queue u = [] \<and> index u = 0 \<and> \<not> flushing u)"
proof -
  have "queue u = [] \<and> index u = 0 \<and> \<not> flushing u" if "flush s = Some (None, u)" for u
  proof -
    have "None = (None::err option) \<longrightarrow> queue u = [] \<and> index u = 0 \<and> \<not> flushing u"
      by (rule flush_partial_rule[OF that, where I = "\<lambda>_. True"
            and Q = "\<lambda>r u. r = None \<longrightarrow> queue u = [] \<and> index u = 0 \<and> \<not> flushing u"])
        (simp_all add: flush_exit_def)
    then show ?thesis by simp
  qed
  then show ?thesis using flush_returns[of s] by blast
qed

theorem flush_returns_with_queue_reset_witness:
  "\<exists>u. flush (rawAsap (Plain (Task 2 ViaRawAsap [] None))
        (rawAsap (Plain (Task 1 ViaRawAsap [Task 3 ViaRawAsap [] None] None)) (Raw_constructor True)))
      = Some (None, u) \<and> queue u = [] \<and> index u = 0 \<and> \<not> flushing u \<and>
     map label (executed u) = [1, 2, 3]"
proof -
  let ?s = "rawAsap (Plain (Task 2 ViaRawAsap [] None))
        (rawAsap (Plain (Task 1 ViaRawAsap [Task 3 ViaRawAsap [] None] None)) (Raw_constructor True))"
  have "map_option (\<lambda>(r, u). (r, map label (executed u))) (flush ?s) = Some (None, [1, 2, 3])"
    by (simp add: flush.simps flush_body_def flush_exit_def call_entry_def run_task_def
        schedule_child_def rawAsap_def entry_task_def call_request_def compaction_def
        Raw_constructor_def makeRequestCallFromMutationObserver_def Let_def)
  then obtain u where u: "flush ?s = Some (None, u)" "map label (executed u) = [1, 2, 3]"
    by auto
  with flush_returns_with_queue_reset[of ?s] show ?thesis by simp
qed

lemma fold_rawAsap_fields:
  "index (fold rawAsap es s) = index s"
  "capacity (fold rawAsap es s) = capacity s"
  "executed (fold rawAsap es s) = executed s"
  by (induction es arbitrary: s) (simp_all add: rawAsap_fields)

text \<open>A flush passes over tasks that schedule nothing and return, up to the capacity.\<close>

lemma flush_passes_over_returning_tasks:
  assumes "\<forall>i<n. queue s ! (index s + i) = Plain (Task l v [] None)"
    and "index s + n \<le> length (queue s)" and "index s + n \<le> capacity s"
  shows "flush s =
    flush (s\<lparr>index := index s + n, executed := executed s @ replicate n (Task l v [] None)\<rparr>)"
  using assms
proof (induction n arbitrary: s)
  case 0
  show ?case by simp
next
  case (Suc n)
  let ?t = "Task l v [] None"
  let ?s1 = "s\<lparr>index := index s + 1, executed := executed s @ [?t]\<rparr>"
  have lt: "index s < length (queue s)" using Suc.prems(2) by simp
  have hd: "queue s ! index s = Plain ?t" using Suc.prems(1) by force
  have ce: "call_entry (queue s ! index s) (s\<lparr>index := index s + 1\<rparr>) = (None, ?s1)"
    by (simp add: hd call_entry_def run_task_def)
  have "flush_body s = compaction ?s1" using ce by (simp add: flush_body_def Let_def)
  moreover have "compaction ?s1 = (None, ?s1)"
    using Suc.prems(3) by (simp add: compaction_eq)
  ultimately have fb: "flush_body s = (None, ?s1)" by simp
  have f: "flush s = flush ?s1" using lt fb by (subst flush.simps) simp
  have a: "\<forall>i<n. queue ?s1 ! (index ?s1 + i) = Plain ?t"
  proof (intro allI impI)
    fix i assume "i < n"
    then have "queue s ! (index s + Suc i) = Plain ?t" using Suc.prems(1) by blast
    then show "queue ?s1 ! (index ?s1 + i) = Plain ?t" by simp
  qed
  have b: "index ?s1 + n \<le> length (queue ?s1)" "index ?s1 + n \<le> capacity ?s1"
    using Suc.prems(2,3) by simp_all
  from Suc.IH[OF a b] f show ?case by (simp add: replicate_append_same)
qed

text \<open>
  Claim C6. With the capacity of 1024 that the constructor sets, the statement that follows
  each invocation in \<open>flush\<close> compacts the queue as soon as the index exceeds 1024: the
  entry at position \<open>index + i\<close> moves to position \<open>i\<close>, the queue shrinks by \<open>index\<close> to
  the number of entries awaiting invocation, the index becomes 0, and the entries awaiting
  invocation are the same as before. Up to 1024 the statement changes nothing. In
  \<open>flush\<close> the statement runs on the state that the invoked task leaves behind when it
  returns, so that a pass through the loop that does not throw ends with the index at most
  the capacity. When the invoked task throws, the error leaves \<open>flush\<close> before the
  statement is reached and the queue stays as the task left it.
\<close>

theorem compaction_moves_pending_to_front:
  assumes "capacity s = 1024" and "index s \<le> length (queue s)"
  shows "capacity (Raw_constructor obs) = 1024 \<and>
         (1024 < index s \<longrightarrow>
            fst (compaction s) = None \<and>
            (\<forall>i < length (queue s) - index s.
               queue (snd (compaction s)) ! i = queue s ! (index s + i)) \<and>
            length (queue (snd (compaction s))) = length (queue s) - index s \<and>
            length (queue (snd (compaction s))) = length (pending s) \<and>
            index (snd (compaction s)) = 0 \<and>
            pending (snd (compaction s)) = pending s \<and>
            pending_tasks (snd (compaction s)) = pending_tasks s) \<and>
         (index s \<le> 1024 \<longrightarrow> compaction s = (None, s)) \<and>
         (\<forall>s0 s2. index s0 < length (queue s0) \<and>
            call_entry (queue s0 ! index s0) (s0\<lparr>index := index s0 + 1\<rparr>) = (None, s2) \<longrightarrow>
            flush_body s0 = compaction s2 \<and> index s2 = index s0 + 1 \<and>
            index s2 \<le> length (queue s2) \<and> capacity s2 = capacity s0 \<and>
            index (snd (flush_body s0)) \<le> capacity s0) \<and>
         (\<forall>s0 e s2. index s0 < length (queue s0) \<and>
            call_entry (queue s0 ! index s0) (s0\<lparr>index := index s0 + 1\<rparr>) = (Some e, s2) \<longrightarrow>
            flush_body s0 = (Some e, s2) \<and> flush s0 = Some (Some e, s2) \<and>
            index s2 = index s0 + 1 \<and> length (queue s0) \<le> length (queue s2))"
proof -
  have body: "flush_body s0 = compaction s2 \<and> index s2 = index s0 + 1 \<and>
      index s2 \<le> length (queue s2) \<and> capacity s2 = capacity s0 \<and>
      index (snd (flush_body s0)) \<le> capacity s0"
    if "index s0 < length (queue s0)"
      "call_entry (queue s0 ! index s0) (s0\<lparr>index := index s0 + 1\<rparr>) = (None, s2)" for s0 s2
  proof -
    have "frame (s0\<lparr>index := index s0 + 1\<rparr>)
        (snd (call_entry (queue s0 ! index s0) (s0\<lparr>index := index s0 + 1\<rparr>)))"
      by (rule call_entry_frame)
    then have fr: "index s2 = index s0 + 1" "index s2 \<le> length (queue s2)"
      "capacity s2 = capacity s0"
      using that by (auto simp: frame_def)
    have fb: "flush_body s0 = compaction s2" using that(2) by (simp add: flush_body_def Let_def)
    have "index (snd (compaction s2)) \<le> capacity s2"
      using fr(2) by (simp add: compaction_eq)
    with fr fb show ?thesis by simp
  qed
  have thrown: "flush_body s0 = (Some e, s2) \<and> flush s0 = Some (Some e, s2) \<and>
      index s2 = index s0 + 1 \<and> length (queue s0) \<le> length (queue s2)"
    if "index s0 < length (queue s0)"
      "call_entry (queue s0 ! index s0) (s0\<lparr>index := index s0 + 1\<rparr>) = (Some e, s2)" for s0 e s2
  proof -
    have "frame (s0\<lparr>index := index s0 + 1\<rparr>)
        (snd (call_entry (queue s0 ! index s0) (s0\<lparr>index := index s0 + 1\<rparr>)))"
      by (rule call_entry_frame)
    then have fr: "index s2 = index s0 + 1" "length (queue s0) \<le> length (queue s2)"
      using that by (auto simp: frame_def)
    have fb: "flush_body s0 = (Some e, s2)" using that(2) by (simp add: flush_body_def Let_def)
    then have "flush s0 = Some (Some e, s2)" using that(1) by (subst flush.simps) simp
    with fr fb show ?thesis by simp
  qed
  have cap: "capacity (Raw_constructor obs) = 1024" by (simp add: Raw_constructor_def)
  have small: "compaction s = (None, s)" if "index s \<le> 1024"
    using that assms(1) by (simp add: compaction_eq)
  have big: "fst (compaction s) = None \<and>
            (\<forall>i < length (queue s) - index s.
               queue (snd (compaction s)) ! i = queue s ! (index s + i)) \<and>
            length (queue (snd (compaction s))) = length (queue s) - index s \<and>
            length (queue (snd (compaction s))) = length (pending s) \<and>
            index (snd (compaction s)) = 0" if "1024 < index s"
    using that assms by (simp add: compaction_eq pending_def)
  note same = compaction_heap(2,4)[OF assms(2)]
  from body thrown cap small big same show ?thesis by blast
qed

theorem compaction_moves_pending_to_front_witness:
  "queue (snd (compaction ((Raw_constructor True)
       \<lparr>queue := replicate 1025 (Plain (Task 0 ViaRawAsap [] None)) @
                 [Plain (Task 1 ViaRawAsap [] None), Plain (Task 2 ViaRawAsap [] None)],
        index := 1025\<rparr>))) ! 1 = Plain (Task 2 ViaRawAsap [] None) \<and>
   length (queue (snd (compaction ((Raw_constructor True)
       \<lparr>queue := replicate 1025 (Plain (Task 0 ViaRawAsap [] None)) @
                 [Plain (Task 1 ViaRawAsap [] None), Plain (Task 2 ViaRawAsap [] None)],
        index := 1025\<rparr>)))) = 2 \<and>
   index (snd (compaction ((Raw_constructor True)
       \<lparr>queue := replicate 1025 (Plain (Task 0 ViaRawAsap [] None)) @
                 [Plain (Task 1 ViaRawAsap [] None), Plain (Task 2 ViaRawAsap [] None)],
        index := 1025\<rparr>))) = 0"
proof -
  let ?s = "(Raw_constructor True)
       \<lparr>queue := replicate 1025 (Plain (Task 0 ViaRawAsap [] None)) @
                 [Plain (Task 1 ViaRawAsap [] None), Plain (Task 2 ViaRawAsap [] None)],
        index := 1025\<rparr>"
  have c: "capacity ?s = 1024" by (simp add: Raw_constructor_def)
  have l: "index ?s \<le> length (queue ?s)" by simp
  have i: "1024 < index ?s" by simp
  from compaction_moves_pending_to_front[OF c l, of True] i
  have "\<forall>i < length (queue ?s) - index ?s.
           queue (snd (compaction ?s)) ! i = queue ?s ! (index ?s + i)"
    and "length (queue (snd (compaction ?s))) = length (queue ?s) - index ?s"
    and "index (snd (compaction ?s)) = 0"
    by blast+
  then show ?thesis by (simp add: nth_append)
qed

text \<open>
  A task that throws past the capacity: 1024 tasks that return, then a task that throws,
  then one more task, handed to \<open>rawAsap\<close>. The flush is left by the error of the 1025th
  task with the index at 1025, above the capacity, and the queue as long as before, one
  entry awaiting invocation.
\<close>

theorem throwing_task_skips_compaction:
  "map_option fst (flush (fold rawAsap
      (replicate 1024 (Plain (Task 0 ViaRawAsap [] None)) @
       [Plain (Task 7 ViaRawAsap [] (Some (Thrown 5))), Plain (Task 8 ViaRawAsap [] None)])
      (Raw_constructor True))) = Some (Some (Thrown 5)) \<and>
   index (snd (the (flush (fold rawAsap
      (replicate 1024 (Plain (Task 0 ViaRawAsap [] None)) @
       [Plain (Task 7 ViaRawAsap [] (Some (Thrown 5))), Plain (Task 8 ViaRawAsap [] None)])
      (Raw_constructor True))))) = 1025 \<and>
   capacity (snd (the (flush (fold rawAsap
      (replicate 1024 (Plain (Task 0 ViaRawAsap [] None)) @
       [Plain (Task 7 ViaRawAsap [] (Some (Thrown 5))), Plain (Task 8 ViaRawAsap [] None)])
      (Raw_constructor True))))) = 1024 \<and>
   length (queue (snd (the (flush (fold rawAsap
      (replicate 1024 (Plain (Task 0 ViaRawAsap [] None)) @
       [Plain (Task 7 ViaRawAsap [] (Some (Thrown 5))), Plain (Task 8 ViaRawAsap [] None)])
      (Raw_constructor True)))))) = 1026 \<and>
   pending (snd (the (flush (fold rawAsap
      (replicate 1024 (Plain (Task 0 ViaRawAsap [] None)) @
       [Plain (Task 7 ViaRawAsap [] (Some (Thrown 5))), Plain (Task 8 ViaRawAsap [] None)])
      (Raw_constructor True))))) = [Plain (Task 8 ViaRawAsap [] None)]"
proof -
  define es where "es = replicate 1024 (Plain (Task 0 ViaRawAsap [] None)) @
       [Plain (Task 7 ViaRawAsap [] (Some (Thrown 5))), Plain (Task 8 ViaRawAsap [] None)]"
  define S where "S = fold rawAsap es (Raw_constructor True)"
  have q: "queue S = es" and i: "index S = 0" and c: "capacity S = 1024"
    unfolding S_def by (simp_all add: fold_rawAsap_queue fold_rawAsap_fields Raw_constructor_def)
  have len: "length es = 1026" by (simp add: es_def)
  define S1 where "S1 = S\<lparr>index := index S + 1024,
      executed := executed S @ replicate 1024 (Task 0 ViaRawAsap [] None)\<rparr>"
  have "\<forall>i<1024. queue S ! (index S + i) = Plain (Task 0 ViaRawAsap [] None)"
    by (simp add: q i es_def nth_append)
  then have f1: "flush S = flush S1"
    unfolding S1_def
    by (rule flush_passes_over_returning_tasks) (simp_all add: q i c len)
  have q1: "queue S1 = es" "index S1 = 1024" by (simp_all add: S1_def q i)
  have e1: "queue S1 ! index S1 = Plain (Task 7 ViaRawAsap [] (Some (Thrown 5)))"
    by (simp add: q1 es_def nth_append)
  define U where "U = S1\<lparr>index := index S1 + 1,
      executed := executed S1 @ [Task 7 ViaRawAsap [] (Some (Thrown 5))]\<rparr>"
  have ce: "call_entry (queue S1 ! index S1) (S1\<lparr>index := index S1 + 1\<rparr>) = (Some (Thrown 5), U)"
    by (simp add: e1 U_def call_entry_def run_task_def)
  have "flush_body S1 = (Some (Thrown 5), U)" using ce by (simp add: flush_body_def Let_def)
  moreover have "index S1 < length (queue S1)" by (simp add: q1 len)
  ultimately have "flush S1 = Some (Some (Thrown 5), U)" by (subst flush.simps) simp
  then have f: "flush S = Some (Some (Thrown 5), U)" using f1 by simp
  have u: "index U = 1025" "capacity U = 1024" "queue U = es"
    by (simp_all add: U_def S1_def q i c)
  have p: "pending U = [Plain (Task 8 ViaRawAsap [] None)]"
    by (simp add: pending_def u es_def)
  show ?thesis
    unfolding S_def[symmetric] es_def[symmetric] f using u p len by simp
qed

section \<open>Interrupted flushes\<close>

lemma well_formed_flush:
  assumes "well_formed s" "flush s = Some (r, u)"
  shows "well_formed u \<and> (\<exists>ts. executed u = executed s @ ts) \<and>
         (\<exists>new. scheduled u = scheduled s @ new)"
proof -
  define I where "I = (\<lambda>x::state. well_formed x \<and> (\<exists>ts. executed x = executed s @ ts) \<and>
         (\<exists>new. scheduled x = scheduled s @ new))"
  have step: "I (snd (flush_body x))" if "I x" "index x < length (queue x)" for x
  proof -
    have h: "heap_ok {} x" using that(1) by (simp add: I_def well_formed_def)
    note fb = flush_body_heap[OF h that(2)]
    have "well_formed (snd (flush_body x))"
      using well_formed_flush_body[OF _ that(2)] that(1) by (simp add: I_def)
    moreover have "\<exists>ts. executed (snd (flush_body x)) = executed s @ ts"
      using fb that(1) by (auto simp: I_def)
    moreover have "\<exists>new. scheduled (snd (flush_body x)) = scheduled s @ new"
      using fb that(1) by (auto simp: I_def)
    ultimately show ?thesis by (simp add: I_def)
  qed
  have "I u"
  proof (rule flush_partial_rule[OF assms(2), where I = I and Q = "\<lambda>r. I"])
    show "I s" using assms(1) by (simp add: I_def)
  next
    fix x x' assume "I x" "index x < length (queue x)" "flush_body x = (None, x')"
    then show "I x'" using step[of x] by simp
  next
    fix x e x' assume "I x" "index x < length (queue x)" "flush_body x = (Some e, x')"
    then show "I x'" using step[of x] by simp
  next
    fix x assume x: "I x" "\<not> index x < length (queue x)"
    then have h: "heap_ok {} x" by (simp add: I_def well_formed_def)
    note ex = flush_exit_heap[OF h x(2)]
    have "well_formed (flush_exit x)"
      using x(1) ex by (simp add: I_def well_formed_def) (simp add: flush_exit_def)
    then show "I (flush_exit x)" using x(1) by (simp add: I_def) (simp add: flush_exit_def)
  qed
  then show ?thesis by (simp add: I_def)
qed

lemma flush_runs_a_segment:
  assumes "well_formed s" "flush s = Some (r, u)"
  shows "well_formed u \<and> (\<exists>k new. scheduled u = scheduled s @ new \<and>
    executed u = executed s @ take k (pending_tasks s @ new) \<and>
    pending_tasks u = drop k (pending_tasks s @ new))"
proof -
  from well_formed_flush[OF assms] obtain ts new where wu: "well_formed u"
    and e: "executed u = executed s @ ts" and n: "scheduled u = scheduled s @ new" by blast
  have "executed s @ ts @ pending_tasks u = executed s @ pending_tasks s @ new"
    using wu assms(1) e n by (simp add: well_formed_def)
  then have eq: "ts @ pending_tasks u = pending_tasks s @ new" by simp
  have "executed u = executed s @ take (length ts) (pending_tasks s @ new)"
    "pending_tasks u = drop (length ts) (pending_tasks s @ new)"
    using e by (simp_all flip: eq)
  with wu n show ?thesis by blast
qed

text \<open>
  Claim C5. When the task at the index throws, it has been invoked in the state in which the
  index already points behind it; the error leaves \<open>flush\<close> with that state, in which the
  queue has only grown, so a later \<open>flush\<close> starts at the entry behind the one that threw.
  Hence, from a well-formed state, every call of \<open>flush\<close>, returning or throwing, runs an
  initial segment of the tasks awaiting invocation (those that were and those scheduled
  meanwhile) and leaves the others awaiting invocation, in a well-formed state: the tasks run
  are always a prefix of the tasks handed in, so none runs twice.
\<close>

theorem flush_advances_before_invoking:
  assumes "index s < length (queue s)"
    and "call_entry (queue s ! index s) (s\<lparr>index := index s + 1\<rparr>) = (Some e, s2)"
  shows "flush s = Some (Some e, s2) \<and> index s2 = index s + 1 \<and>
         (\<exists>new. queue s2 = queue s @ new \<and> pending s2 = tl (pending s) @ new) \<and>
         (\<forall>x r u. well_formed x \<and> flush x = Some (r, u) \<longrightarrow>
            well_formed u \<and>
            (\<exists>k new. scheduled u = scheduled x @ new \<and>
               executed u = executed x @ take k (pending_tasks x @ new) \<and>
               pending_tasks u = drop k (pending_tasks x @ new)))"
proof -
  have fb: "flush_body s = (Some e, s2)" using assms(2) by (simp add: flush_body_def Let_def)
  then have f: "flush s = Some (Some e, s2)" using assms(1) by (subst flush.simps) simp
  have "frame (s\<lparr>index := index s + 1\<rparr>) s2"
    using call_entry_frame[of "s\<lparr>index := index s + 1\<rparr>" "queue s ! index s"] assms(2) by simp
  then obtain new where i: "index s2 = index s + 1" and q: "queue s2 = queue s @ new"
    by (auto simp: frame_def)
  have "pending s2 = tl (pending s) @ new"
    using assms(1) i q by (simp add: pending_def drop_Suc tl_drop)
  with f i q flush_runs_a_segment show ?thesis by blast
qed

theorem flush_advances_before_invoking_witness:
  "flush (fold rawAsap [Plain (Task 7 ViaRawAsap [] (Some (Thrown 5))),
       Plain (Task 8 ViaRawAsap [] None)] (Raw_constructor True)) =
     Some (Some (Thrown 5),
       snd (call_entry (Plain (Task 7 ViaRawAsap [] (Some (Thrown 5))))
         ((fold rawAsap [Plain (Task 7 ViaRawAsap [] (Some (Thrown 5))),
           Plain (Task 8 ViaRawAsap [] None)] (Raw_constructor True))\<lparr>index := 1\<rparr>))) \<and>
   map_option (\<lambda>(r, u). (r, index u, map label (executed u), map label (pending_tasks u)))
     (flush (fold rawAsap [Plain (Task 7 ViaRawAsap [] (Some (Thrown 5))),
       Plain (Task 8 ViaRawAsap [] None)] (Raw_constructor True))) =
     Some (Some (Thrown 5), 1, [7], [8])"
proof -
  let ?s = "fold rawAsap [Plain (Task 7 ViaRawAsap [] (Some (Thrown 5))),
       Plain (Task 8 ViaRawAsap [] None)] (Raw_constructor True)"
  let ?s2 = "snd (call_entry (Plain (Task 7 ViaRawAsap [] (Some (Thrown 5)))) (?s\<lparr>index := 1\<rparr>))"
  have a: "index ?s < length (queue ?s)" by (simp add: model_defs)
  have b: "call_entry (queue ?s ! index ?s) (?s\<lparr>index := index ?s + 1\<rparr>) = (Some (Thrown 5), ?s2)"
    by (simp add: model_defs)
  from flush_advances_before_invoking[OF a b]
  have f: "flush ?s = Some (Some (Thrown 5), ?s2)" by blast
  have "index ?s2 = 1" "map label (executed ?s2) = [7]" "map label (pending_tasks ?s2) = [8]"
    by (simp_all add: model_defs pending_tasks_def pending_def)
  with f show ?thesis by simp
qed

section \<open>The index stays within the queue\<close>

lemma frame_index_le:
  "frame s s' \<Longrightarrow> index s \<le> length (queue s) \<Longrightarrow> index s' \<le> length (queue s')"
  by (auto simp: frame_def)

lemma compaction_index_le:
  "index s \<le> length (queue s) \<Longrightarrow> index (snd (compaction s)) \<le> length (queue (snd (compaction s)))"
  by (simp add: compaction_eq)

lemma flush_body_index_le:
  assumes "index s < length (queue s)"
  shows "index (snd (flush_body s)) \<le> length (queue (snd (flush_body s)))"
proof -
  let ?s1 = "s\<lparr>index := index s + 1\<rparr>"
  have "index ?s1 \<le> length (queue ?s1)" using assms by simp
  then have le: "index (snd (call_entry (queue s ! index s) ?s1))
      \<le> length (queue (snd (call_entry (queue s ! index s) ?s1)))"
    by (rule frame_index_le[OF call_entry_frame])
  show ?thesis
  proof (cases rule: flush_body_cases[of s])
    case (threw e s2)
    then show ?thesis using le by simp
  next
    case (passed s2)
    then show ?thesis using le compaction_index_le[of s2] by simp
  qed
qed

lemma flush_index_le:
  assumes "flush s = Some (r, s')"
  shows "index s' \<le> length (queue s')"
proof (rule flush_partial_rule[OF assms, where I = "\<lambda>_. True"
      and Q = "\<lambda>r u. index u \<le> length (queue u)"])
  fix x e x' assume "index x < length (queue x)" "flush_body x = (Some e, x')"
  then show "index x' \<le> length (queue x')" using flush_body_index_le[of x] by simp
next
  fix x show "index (flush_exit x) \<le> length (queue (flush_exit x))" by (simp add: flush_exit_def)
qed simp_all

text \<open>
  Claim C8. In every reachable state the index is at least 0 and at most the length of the
  queue: after construction and after every call of \<open>rawAsap\<close> or \<open>asap\<close>, where \<open>flush\<close>
  invokes a task, where the task has returned or thrown, after the compaction, and where
  \<open>flush\<close> has returned or thrown.
\<close>

theorem index_within_queue:
  assumes "s \<in> reachable"
  shows "0 \<le> index s \<and> index s \<le> length (queue s)"
proof -
  have "index s \<le> length (queue s)"
    using assms
  proof (induction rule: reachable.induct)
    case (constructed_raw obs)
    show ?case by (simp add: Raw_constructor_def)
  next
    case (constructed_asap r obs s)
    then show ?case
      by (auto simp: Asap_constructor_on_def Raw_constructor_def split: option.splits)
  next
    case (hook_set s hook)
    then show ?case by simp
  next
    case (scheduled_raw s t)
    then show ?case by (simp add: rawAsap_fields)
  next
    case (scheduled_asap s t)
    then show ?case by (simp add: asap_fields)
  next
    case (advanced s)
    then show ?case by simp
  next
    case (invoked s r s')
    have "index (s\<lparr>index := index s + 1\<rparr>) \<le> length (queue (s\<lparr>index := index s + 1\<rparr>))"
      using invoked(2) by simp
    from frame_index_le[OF call_entry_frame this, of "queue s ! index s"] invoked(3)
    show ?case by simp
  next
    case (passed s r s')
    then show ?case using flush_body_index_le[of s] by simp
  next
    case (flushed s r s')
    then show ?case using flush_index_le by blast
  next
    case (rethrown s r s')
    then show ?case by (auto simp: throwFirstError_def split: list.splits)
  qed
  then show ?thesis by simp
qed

theorem index_within_queue_witness:
  "index (snd (flush_body (fold rawAsap [Plain (Task 7 ViaRawAsap [] (Some (Thrown 5))),
       Plain (Task 8 ViaRawAsap [] None)] (Raw_constructor True)))) = 1 \<and>
   index (snd (flush_body (fold rawAsap [Plain (Task 7 ViaRawAsap [] (Some (Thrown 5))),
       Plain (Task 8 ViaRawAsap [] None)] (Raw_constructor True))))
     \<le> length (queue (snd (flush_body (fold rawAsap [Plain (Task 7 ViaRawAsap [] (Some (Thrown 5))),
       Plain (Task 8 ViaRawAsap [] None)] (Raw_constructor True)))))"
proof -
  let ?s = "fold rawAsap [Plain (Task 7 ViaRawAsap [] (Some (Thrown 5))),
       Plain (Task 8 ViaRawAsap [] None)] (Raw_constructor True)"
  have "?s \<in> reachable"
    by (auto intro!: reachable.scheduled_raw reachable.constructed_raw)
  moreover have "index ?s < length (queue ?s)" by (simp add: model_defs)
  ultimately have "snd (flush_body ?s) \<in> reachable"
    by (rule reachable.passed[where r = "fst (flush_body ?s)"]) simp
  from index_within_queue[OF this] show ?thesis by (simp add: model_defs)
qed

section \<open>The flushing flag\<close>

lemma rawAsap_flag:
  "rawAsap e (s\<lparr>flushing := b\<rparr>) =
     (rawAsap e s)\<lparr>flushing := (if queue s = [] then True else b)\<rparr>"
  by (cases "queue s = []"; cases e) (simp_all add: rawAsap_def call_request_def entry_task_def)

lemma asap_flag:
  "asap t (s\<lparr>flushing := b\<rparr>) = (asap t s)\<lparr>flushing := (if queue s = [] then True else b)\<rparr>"
  by (cases "queue s = []"; cases "freeTasks s = []")
    (simp_all add: asap_def getRawTask_def rawAsap_def call_request_def entry_task_def)

lemma schedule_child_flag:
  "queue s \<noteq> [] \<Longrightarrow> schedule_child c (s\<lparr>flushing := b\<rparr>) = (schedule_child c s)\<lparr>flushing := b\<rparr>"
  by (simp add: schedule_child_def asap_flag rawAsap_flag split: kind.splits)

lemma fold_schedule_flag:
  "queue s \<noteq> [] \<Longrightarrow>
   fold schedule_child cs (s\<lparr>flushing := b\<rparr>) = (fold schedule_child cs s)\<lparr>flushing := b\<rparr>"
proof (induction cs arbitrary: s)
  case Nil
  show ?case by simp
next
  case (Cons c cs)
  have "queue (schedule_child c s) \<noteq> []"
    using frame_queue_nonempty[OF schedule_child_frame Cons.prems] .
  from Cons.IH[OF this] show ?case by (simp add: schedule_child_flag[OF Cons.prems])
qed

lemma run_task_flag:
  assumes "queue s \<noteq> []"
  shows "run_task t (s\<lparr>flushing := b\<rparr>) = (fst (run_task t s), (snd (run_task t s))\<lparr>flushing := b\<rparr>)"
proof -
  let ?s = "s\<lparr>executed := executed s @ [t]\<rparr>"
  have "queue ?s \<noteq> []" using assms by simp
  note f = fold_schedule_flag[OF this, of "spawns t" b]
  have eq: "(s\<lparr>flushing := b\<rparr>)\<lparr>executed := executed (s\<lparr>flushing := b\<rparr>) @ [t]\<rparr> =
      ?s\<lparr>flushing := b\<rparr>" by simp
  show ?thesis unfolding run_task_def eq f by simp
qed

lemma try_block_flag:
  assumes "queue s \<noteq> []"
  shows "try_block h (s\<lparr>flushing := b\<rparr>) =
    (fst (try_block h s), (snd (try_block h s))\<lparr>flushing := b\<rparr>)"
  using run_task_flag[OF assms] by (simp add: try_block_def split: option.splits)

lemma catch_block_flag:
  "catch_block e (s\<lparr>flushing := b\<rparr>) =
    (fst (catch_block e s), (snd (catch_block e s))\<lparr>flushing := b\<rparr>)"
  by (simp add: catch_block_def call_request_def Let_def split: option.splits)

lemma finally_block_flag:
  "finally_block h (s\<lparr>flushing := b\<rparr>) = (finally_block h s)\<lparr>flushing := b\<rparr>"
  by (simp add: finally_block_def)

lemma call_flag:
  assumes "queue s \<noteq> []"
  shows "call h (s\<lparr>flushing := b\<rparr>) = (fst (call h s), (snd (call h s))\<lparr>flushing := b\<rparr>)"
  by (simp add: call_def try_block_flag[OF assms] catch_block_flag finally_block_flag
      split: prod.splits option.splits)

lemma call_entry_flag:
  assumes "queue s \<noteq> []"
  shows "call_entry e (s\<lparr>flushing := b\<rparr>) =
    (fst (call_entry e s), (snd (call_entry e s))\<lparr>flushing := b\<rparr>)"
  using run_task_flag[OF assms] call_flag[OF assms]
  by (simp add: call_entry_def split: entry.splits)

lemma compaction_flag:
  "compaction (s\<lparr>flushing := b\<rparr>) = (fst (compaction s), (snd (compaction s))\<lparr>flushing := b\<rparr>)"
  by (simp add: compaction_eq)

lemma flush_body_flag:
  assumes "index s < length (queue s)"
  shows "flush_body (s\<lparr>flushing := b\<rparr>) =
    (fst (flush_body s), (snd (flush_body s))\<lparr>flushing := b\<rparr>)"
proof -
  let ?s1 = "s\<lparr>index := index s + 1\<rparr>"
  have ne: "queue ?s1 \<noteq> []" using assms by auto
  have eq: "s\<lparr>flushing := b, index := index s + 1\<rparr> = ?s1\<lparr>flushing := b\<rparr>" by simp
  show ?thesis
    by (simp add: flush_body_def Let_def eq call_entry_flag[OF ne] compaction_flag
        split: prod.splits option.splits del: One_nat_def)
qed

lemma flush_flag:
  assumes "flush s = Some (r, s')"
  shows "flush (s\<lparr>flushing := b\<rparr>) = Some (r, s'\<lparr>flushing := (if r = None then False else b)\<rparr>)"
proof -
  have "\<forall>b. flush (x0\<lparr>flushing := b\<rparr>) =
      Some (fst y0, (snd y0)\<lparr>flushing := (if fst y0 = None then False else b)\<rparr>)"
    if h: "flush x0 = Some y0" for x0 y0
  proof (rule flush.raw_induct[where P = "\<lambda>x y. \<forall>b. flush (x\<lparr>flushing := b\<rparr>) =
      Some (fst y, (snd y)\<lparr>flushing := (if fst y = None then False else b)\<rparr>)", OF _ h])
    fix f x y
    assume IH: "\<And>x y. f x = Some y \<Longrightarrow> \<forall>b. flush (x\<lparr>flushing := b\<rparr>) =
        Some (fst y, (snd y)\<lparr>flushing := (if fst y = None then False else b)\<rparr>)"
      and eq: "(if index x < length (queue x)
                then case flush_body x of (None, s') \<Rightarrow> f s' | (Some e, s') \<Rightarrow> Some (Some e, s')
                else Some (None, flush_exit x)) = Some y"
    show "\<forall>b. flush (x\<lparr>flushing := b\<rparr>) =
        Some (fst y, (snd y)\<lparr>flushing := (if fst y = None then False else b)\<rparr>)"
    proof (cases "index x < length (queue x)")
      case False
      then have "y = (None, flush_exit x)" using eq by simp
      then show ?thesis using False by (subst flush.simps) (simp add: flush_exit_def)
    next
      case True
      obtain r1 x1 where fb: "flush_body x = (r1, x1)" by force
      have fb': "flush_body (x\<lparr>flushing := b\<rparr>) = (r1, x1\<lparr>flushing := b\<rparr>)" for b
        using flush_body_flag[OF True, of b] fb by simp
      show ?thesis
      proof (cases r1)
        case None
        then have "f x1 = Some y" using eq True fb by simp
        from IH[OF this] show ?thesis
          using True None fb' by (subst flush.simps) simp
      next
        case (Some e)
        then have "y = (Some e, x1)" using eq True fb by simp
        then show ?thesis using True Some fb' by (subst flush.simps) simp
      qed
    qed
  qed
  from this[OF assms] show ?thesis by simp
qed

lemma flush_thrown_queue:
  assumes "flush s = Some (Some e, s')"
  shows "queue s' \<noteq> []"
proof -
  have "Some e \<noteq> None \<longrightarrow> queue s' \<noteq> []"
  proof (rule flush_partial_rule[OF assms, where I = "\<lambda>_. True"
        and Q = "\<lambda>r u. r \<noteq> None \<longrightarrow> queue u \<noteq> []"])
    fix x e x' assume x: "index x < length (queue x)" "flush_body x = (Some e, x')"
    have "index x' \<le> length (queue x')" using flush_body_index_le[OF x(1)] x(2) by simp
    moreover have "index x' \<noteq> 0 \<or> queue x' \<noteq> []"
    proof (cases rule: flush_body_cases[of x])
      case (threw e2 s2)
      then have "frame (x\<lparr>index := index x + 1\<rparr>) s2"
        using call_entry_frame[of "x\<lparr>index := index x + 1\<rparr>" "queue x ! index x"] by simp
      then show ?thesis using threw x(2) by (auto simp: frame_def)
    next
      case (passed s2)
      then have "frame (x\<lparr>index := index x + 1\<rparr>) s2"
        using call_entry_frame[of "x\<lparr>index := index x + 1\<rparr>" "queue x ! index x"] by simp
      then have "index s2 \<le> length (queue s2)" using x(1) by (auto simp: frame_def)
      then show ?thesis using passed x(2) by (simp add: compaction_eq split: if_splits)
    qed
    ultimately show "Some e \<noteq> None \<longrightarrow> queue x' \<noteq> []" by auto
  qed simp_all
  then show ?thesis by simp
qed

text \<open>
  Claim C10. No operation reads the flushing flag: started with the flag changed,
  \<open>rawAsap\<close>, \<open>asap\<close>, \<open>throwFirstError\<close> and \<open>flush\<close> do the same and yield the same
  state but for the flag. Whether \<open>rawAsap\<close> calls the request function depends on the
  queue being empty alone. When \<open>flush\<close> has thrown, the queue is not empty, so every later
  call of \<open>rawAsap\<close> appends its entry and requests nothing.
\<close>

theorem flushing_flag_is_never_read:
  "rawAsap e (s\<lparr>flushing := b\<rparr>) =
     (rawAsap e s)\<lparr>flushing := (if queue s = [] then True else b)\<rparr> \<and>
   asap t (s\<lparr>flushing := b\<rparr>) =
     (asap t s)\<lparr>flushing := (if queue s = [] then True else b)\<rparr> \<and>
   throwFirstError (s\<lparr>flushing := b\<rparr>) =
     (fst (throwFirstError s), (snd (throwFirstError s))\<lparr>flushing := b\<rparr>) \<and>
   (\<forall>r u. flush s = Some (r, u) \<longrightarrow>
      flush (s\<lparr>flushing := b\<rparr>) = Some (r, u\<lparr>flushing := (if r = None then False else b)\<rparr>)) \<and>
   (flush s = None \<longrightarrow> flush (s\<lparr>flushing := b\<rparr>) = None) \<and>
   requested (rawAsap e s) = requested s @ (if queue s = [] then [requestFlush s] else []) \<and>
   (\<forall>err u. flush s = Some (Some err, u) \<longrightarrow>
      queue u \<noteq> [] \<and>
      (\<forall>es. requested (fold rawAsap es u) = requested u \<and>
            queue (fold rawAsap es u) = queue u @ es))"
proof -
  have t: "throwFirstError (s\<lparr>flushing := b\<rparr>) =
     (fst (throwFirstError s), (snd (throwFirstError s))\<lparr>flushing := b\<rparr>)"
    by (simp add: throwFirstError_def split: list.splits)
  have n: "flush (s\<lparr>flushing := b\<rparr>) = None" if "flush s = None"
  proof (rule ccontr)
    assume "flush (s\<lparr>flushing := b\<rparr>) \<noteq> None"
    then obtain r u where "flush (s\<lparr>flushing := b\<rparr>) = Some (r, u)" by auto
    from flush_flag[OF this, of "flushing s"] that show False by simp
  qed
  have i: "queue u \<noteq> [] \<and> (\<forall>es. requested (fold rawAsap es u) = requested u \<and>
            queue (fold rawAsap es u) = queue u @ es)" if "flush s = Some (Some err, u)" for err u
    using flush_thrown_queue[OF that] by (simp add: fold_rawAsap_nonempty fold_rawAsap_queue)
  from t n i flush_flag[where s = s and b = b] rawAsap_flag[where e = e and s = s and b = b]
    asap_flag[where t = t and s = s and b = b] rawAsap_requested[where e = e and s = s]
  show ?thesis by blast
qed

theorem flushing_flag_is_never_read_witness:
  "map_option fst (flush (fold rawAsap [Plain (Task 7 ViaRawAsap [] (Some (Thrown 5))),
       Plain (Task 8 ViaRawAsap [] None)] (Raw_constructor True))) = Some (Some (Thrown 5)) \<and>
   map_option fst (flush ((fold rawAsap [Plain (Task 7 ViaRawAsap [] (Some (Thrown 5))),
       Plain (Task 8 ViaRawAsap [] None)] (Raw_constructor True))\<lparr>flushing := False\<rparr>)) =
     Some (Some (Thrown 5)) \<and>
   requested (fold rawAsap [Plain (Task 9 ViaRawAsap [] None)]
     (snd (the (flush (fold rawAsap [Plain (Task 7 ViaRawAsap [] (Some (Thrown 5))),
       Plain (Task 8 ViaRawAsap [] None)] (Raw_constructor True)))))) =
     [RequestCall Observation Flush]"
proof -
  let ?s = "fold rawAsap [Plain (Task 7 ViaRawAsap [] (Some (Thrown 5))),
       Plain (Task 8 ViaRawAsap [] None)] (Raw_constructor True)"
  have "map_option (\<lambda>(r, u). (r, requested u)) (flush ?s) =
      Some (Some (Thrown 5), [RequestCall Observation Flush])"
    by (simp add: flush.simps model_defs)
  then obtain u where u: "flush ?s = Some (Some (Thrown 5), u)"
    "requested u = [RequestCall Observation Flush]" by auto
  note inst = flushing_flag_is_never_read[where e = "Plain (Task 9 ViaRawAsap [] None)" and s = ?s
      and b = False and t = "Task 9 ViaRawAsap [] None"]
  from inst u(1) have a: "flush (?s\<lparr>flushing := False\<rparr>) =
      Some (Some (Thrown 5), u\<lparr>flushing := (if Some (Thrown 5) = None then False else False)\<rparr>)"
    by blast
  from inst u(1) have b: "requested (fold rawAsap [Plain (Task 9 ViaRawAsap [] None)] u) = requested u"
    by blast
  have "map_option fst (flush ?s) = Some (Some (Thrown 5))" using u(1) by simp
  moreover have "map_option fst (flush (?s\<lparr>flushing := False\<rparr>)) = Some (Some (Thrown 5))"
    unfolding a by simp
  moreover have "requested (fold rawAsap [Plain (Task 9 ViaRawAsap [] None)] (snd (the (flush ?s)))) =
     [RequestCall Observation Flush]"
    unfolding u(1) using b u(2) by simp
  ultimately show ?thesis by blast
qed

section \<open>The states in which the statements apply\<close>

text \<open>
  Well-formed are the state after construction and every state that \<open>rawAsap\<close> (on a task),
  \<open>asap\<close>, \<open>flush\<close> (lemma \<open>well_formed_flush\<close>) and \<open>throwFirstError\<close> make of a well-formed
  one. The states of a scheduler used through \<open>asap\<close> likewise contain the state after
  construction (lemma \<open>safe_state_Asap_new\<close>) and are closed under \<open>asap\<close>, \<open>flush\<close>
  (lemmas \<open>safe_state_asap\<close>, \<open>safe_state_flush\<close>) and \<open>throwFirstError\<close>.
\<close>

lemma well_formed_Raw_constructor: "well_formed (Raw_constructor obs)"
  by (simp add: Raw_constructor_def well_formed_def heap_ok_def pending_def pending_tasks_def)

lemma well_formed_rawAsap:
  assumes "well_formed s"
  shows "well_formed (rawAsap (Plain t) s)"
proof -
  have h: "heap_ok {} s" using assms by (simp add: well_formed_def)
  show ?thesis
    using assms heap_ok_rawAsap[OF h] pending_tasks_rawAsap[OF h]
    by (simp add: well_formed_def rawAsap_fields rawAsap_scheduled entry_task_def)
qed

lemma well_formed_asap:
  assumes "well_formed s"
  shows "well_formed (asap t s)"
proof -
  have h: "heap_ok {} s" using assms by (simp add: well_formed_def)
  show ?thesis
    using assms heap_ok_asap[OF h] pending_tasks_asap[OF h]
    by (simp add: well_formed_def asap_fields)
qed

lemma throwFirstError_heap:
  "heap_ok X (snd (throwFirstError s)) = heap_ok X s"
  "pending_tasks (snd (throwFirstError s)) = pending_tasks s"
  "list_all (entry_safe (snd (throwFirstError s))) (pending (snd (throwFirstError s))) =
   list_all (entry_safe s) (pending s)"
  by (rule heap_cong; simp add: throwFirstError_eq)+

lemma well_formed_throwFirstError:
  "well_formed s \<Longrightarrow> well_formed (snd (throwFirstError s))"
  by (simp add: well_formed_def throwFirstError_heap) (simp add: throwFirstError_eq)

lemma safe_state_throwFirstError:
  assumes "safe_state s"
  shows "safe_state (snd (throwFirstError s))"
proof -
  have "well_formed (snd (throwFirstError s))"
    using assms by (simp add: safe_state_def well_formed_throwFirstError)
  moreover have "requestErrorThrow (snd (throwFirstError s)) = requestErrorThrow s"
    "hook_quiet (snd (throwFirstError s)) = hook_quiet s"
    by (simp_all add: throwFirstError_eq hook_quiet_def)
  ultimately show ?thesis
    using assms by (simp add: safe_state_def throwFirstError_heap)
qed

end
